theory Spec2Isabelle
  imports Main
begin

section \<open>Values: failures, state identifiers, nullable arguments\<close>

text \<open>
  A thrown value. The engine never inspects it: it only hands it to \<open>onError\<close> and
  throws it again. \<open>TypeError\<close> is what the language itself throws on a call of
  something that is not a function.
\<close>

datatype error = Error string | TypeError string

text \<open>
  \<open>S extends string | number | symbol\<close>. The engine tests a state identifier for
  truthiness (\<open>this.currentState && ...\<close>, \<open>eventMap[event.type] || null\<close>), and
  JavaScript holds the empty string and the number zero to be false. Numbers are
  restricted to the integers here. \<open>PrototypeMember name\<close> is no state identifier:
  it is the value of \<open>Object.prototype[name]\<close> (a function, or the prototype
  itself), which a property read can return where a state was expected and which
  the engine then stores like a state. It is a true value.
\<close>

datatype state_id = StrId string | NumId int | SymId nat | PrototypeMember string

fun truthy :: "state_id \<Rightarrow> bool" where
  "truthy (StrId s) = (s \<noteq> [])"
| "truthy (NumId n) = (n \<noteq> 0)"
| "truthy (SymId k) = True"
| "truthy (PrototypeMember name) = True"

text \<open>
  A property read \<open>object[key]\<close> on an object written as a literal: the value of
  the object's own entry, else the member of \<open>Object.prototype\<close> of that name, else
  \<open>undefined\<close>. The names are those of \<open>Object.prototype\<close>; every member is a true
  value.
\<close>

datatype 'v property = NoProperty | OwnProperty 'v | InheritedProperty string

definition object_prototype_names :: "string list" where
  "object_prototype_names =
     [''constructor'', ''hasOwnProperty'', ''isPrototypeOf'', ''propertyIsEnumerable'',
      ''toLocaleString'', ''toString'', ''valueOf'', ''__proto__'',
      ''__defineGetter__'', ''__defineSetter__'', ''__lookupGetter__'', ''__lookupSetter__'']"

definition property_read :: "(string \<rightharpoonup> 'v) \<Rightarrow> string \<Rightarrow> 'v property" where
  "property_read object key =
     (case object key of
        Some v \<Rightarrow> OwnProperty v
      | None \<Rightarrow>
          if key \<in> set object_prototype_names then InheritedProperty key else NoProperty)"

text \<open>
  An argument of type \<open>C | undefined\<close> where \<open>C\<close> itself may admit \<open>null\<close>:
  \<open>Undefined\<close> is an omitted argument, and \<open>a ?? b\<close> is \<open>b\<close> for both
  \<open>undefined\<close> and \<open>null\<close>.
\<close>

datatype 'a js = Undefined | Null | Value 'a

fun nullish_coalesce :: "'a js \<Rightarrow> 'a js \<Rightarrow> 'a js" where
  "nullish_coalesce Undefined b = b"
| "nullish_coalesce Null b = b"
| "nullish_coalesce (Value a) b = Value a"

section \<open>types.ts: results, handlers, state maps\<close>

record ('e, 'c) FSMStateResult =
  event :: 'e
  "context" :: 'c

text \<open>
  A transition returns the next state or \<open>null\<close> (\<open>None\<close>); like every callback
  it may throw instead (\<open>Inl\<close>).
\<close>

type_synonym ('e, 'c) FSMTransition = "'e \<Rightarrow> 'c \<Rightarrow> error + state_id option"

text \<open>
  Handlers are functions of their arguments; a rejected promise or a throw is \<open>Inl\<close>.
  A callback always settles: a promise that stays pending is not modelled. The
  three lifecycle hooks are optional fields.
\<close>

record ('e, 'c) FSMStateHandler =
  execute :: "'c \<Rightarrow> error + ('e, 'c) FSMStateResult"
  onEnter :: "('c \<Rightarrow> error + unit) option"
  onExit :: "('e \<Rightarrow> 'c \<Rightarrow> error + unit) option"
  onError :: "(error \<Rightarrow> 'c \<Rightarrow> error + unit) option"
  transition :: "('e, 'c) FSMTransition"

text \<open>
  The own entries of the state map: \<open>m s\<close> is the handler written under the key
  \<open>s\<close>. The read \<open>states[s]\<close> that the engine performs goes through the prototype
  chain: only a string can name a member of \<open>Object.prototype\<close>.
\<close>

type_synonym ('e, 'c) FSMStateMap = "state_id \<rightharpoonup> ('e, 'c) FSMStateHandler"

definition state_read ::
  "('e, 'c) FSMStateMap \<Rightarrow> state_id \<Rightarrow> ('e, 'c) FSMStateHandler property" where
  "state_read m s =
     (case m s of
        Some h \<Rightarrow> OwnProperty h
      | None \<Rightarrow>
          (case s of
             StrId name \<Rightarrow>
               if name \<in> set object_prototype_names then InheritedProperty name
               else NoProperty
           | _ \<Rightarrow> NoProperty))"

section \<open>helpers.ts\<close>

record ('e, 'c) lifecycle_options =
  opt_onEnter :: "('c \<Rightarrow> error + unit) option"
  opt_onExit :: "('e \<Rightarrow> 'c \<Rightarrow> error + unit) option"
  opt_onError :: "(error \<Rightarrow> 'c \<Rightarrow> error + unit) option"

definition no_options :: "('e, 'c) lifecycle_options" where
  "no_options = \<lparr>opt_onEnter = None, opt_onExit = None, opt_onError = None\<rparr>"

definition createState ::
  "('c \<Rightarrow> error + ('e, 'c) FSMStateResult) \<Rightarrow> ('e, 'c) FSMTransition \<Rightarrow>
   ('e, 'c) lifecycle_options \<Rightarrow> ('e, 'c) FSMStateHandler" where
  "createState exec trn options =
     \<lparr>execute = exec, onEnter = opt_onEnter options, onExit = opt_onExit options,
      onError = opt_onError options, transition = trn\<rparr>"

definition transitionTo :: "state_id \<Rightarrow> ('e, 'c) FSMTransition" where
  "transitionTo nextState = (\<lambda>ev c. Inr (Some nextState))"

definition finalTransition :: "('e, 'c) FSMTransition" where
  "finalTransition = (\<lambda>ev c. Inr None)"

text \<open>\<open>E extends { type: string }\<close>: any record that has the field \<open>type\<close>.\<close>

record typed_event =
  type :: string

text \<open>
  \<open>(event) => eventMap[event.type] || null\<close>: the right operand is taken when the
  left one is \<open>undefined\<close> and also when it is a state identifier that is false.
  The read goes through the prototype chain, so for a tag that names a member of
  \<open>Object.prototype\<close> and has no own entry the function returns that member.
\<close>

definition eventBasedTransition ::
  "(string \<rightharpoonup> state_id) \<Rightarrow> ('x typed_event_scheme, 'c) FSMTransition" where
  "eventBasedTransition eventMap =
     (\<lambda>ev c. Inr (case property_read eventMap (type ev) of
                     NoProperty \<Rightarrow> None
                   | OwnProperty s \<Rightarrow> if truthy s then Some s else None
                   | InheritedProperty name \<Rightarrow> Some (PrototypeMember name)))"

section \<open>fsm.ts: the engine\<close>

record ('e, 'c) FSM =
  "context" :: 'c
  currentState :: "state_id option"
  states :: "('e, 'c) FSMStateMap"

definition constructor ::
  "'c \<Rightarrow> state_id \<Rightarrow> ('e, 'c) FSMStateMap \<Rightarrow> ('e, 'c) FSM" where
  "constructor initialContext initialState stateMap =
     \<lparr>context = initialContext, currentState = Some initialState, states = stateMap\<rparr>"

definition getCurrentState :: "('e, 'c) FSM \<Rightarrow> state_id option" where
  "getCurrentState eng = currentState eng"

definition getContext :: "('e, 'c) FSM \<Rightarrow> 'c" where
  "getContext eng = context eng"

definition setState :: "state_id \<Rightarrow> ('e, 'c) FSM \<Rightarrow> ('e, 'c) FSM" where
  "setState s eng = eng\<lparr>currentState := Some s\<rparr>"

definition updateContext :: "('c \<Rightarrow> 'c) \<Rightarrow> ('e, 'c) FSM \<Rightarrow> ('e, 'c) FSM" where
  "updateContext updater eng = eng\<lparr>context := updater (context eng)\<rparr>"

definition isInState :: "state_id \<Rightarrow> ('e, 'c) FSM \<Rightarrow> bool" where
  "isInState s eng = (currentState eng = Some s)"

text \<open>
  \<open>reset(newContext?, newState?)\<close>: both assignments use \<open>??\<close>. The context type
  is one whose values can be told from \<open>null\<close> and \<open>undefined\<close>; \<open>newState\<close> has
  type \<open>S | undefined\<close>, and \<open>S\<close> has no \<open>null\<close>.
\<close>

definition reset ::
  "'c js \<Rightarrow> state_id option \<Rightarrow> ('e, 'c js) FSM \<Rightarrow> ('e, 'c js) FSM" where
  "reset newContext newState eng =
     eng\<lparr>context := nullish_coalesce newContext (context eng),
         currentState := (case newState of None \<Rightarrow> currentState eng | Some s \<Rightarrow> Some s)\<rparr>"

subsection \<open>What a run does, as a trace\<close>

text \<open>
  Every callback invocation with its arguments, the assignment to \<open>this.context\<close>
  and every \<open>yield\<close>, in the order in which they happen.
\<close>

datatype ('e, 'c) obs =
    OnEnter state_id 'c
  | Execute state_id 'c
  | Commit 'c
  | OnExit state_id 'e 'c
  | Yield 'e
  | Transition state_id 'e 'c
  | OnError state_id error 'c

subsection \<open>The body of the loop\<close>

text \<open>
  The statements of the \<open>try\<close> block up to the \<open>yield\<close>: the calls made, the engine
  as the statements left it, and the failure that left the block or the result
  of \<open>execute\<close>.
\<close>

definition try_block ::
  "state_id \<Rightarrow> ('e, 'c) FSMStateHandler \<Rightarrow> ('e, 'c) FSM \<Rightarrow>
   ('e, 'c) obs list \<times> ('e, 'c) FSM \<times> (error + ('e, 'c) FSMStateResult)" where
  "try_block s h eng =
     (let entered = (case onEnter h of None \<Rightarrow> [] | Some f \<Rightarrow> [OnEnter s (context eng)]) in
      case (case onEnter h of None \<Rightarrow> Inr () | Some f \<Rightarrow> f (context eng)) of
        Inl err \<Rightarrow> (entered, eng, Inl err)
      | Inr _ \<Rightarrow>
          (case execute h (context eng) of
             Inl err \<Rightarrow> (entered @ [Execute s (context eng)], eng, Inl err)
           | Inr result \<Rightarrow>
               (let eng' = eng\<lparr>context := FSMStateResult.context result\<rparr>;
                    exited = (case onExit h of None \<Rightarrow> []
                              | Some f \<Rightarrow> [OnExit s (event result) (context eng')]);
                    tr = entered @ [Execute s (context eng), Commit (context eng')] @ exited
                in case (case onExit h of None \<Rightarrow> Inr ()
                         | Some f \<Rightarrow> f (event result) (context eng')) of
                     Inl err \<Rightarrow> (tr, eng', Inl err)
                   | Inr _ \<Rightarrow> (tr, eng', Inr result))))"

text \<open>
  The \<open>catch\<close> block: \<open>await stateHandler.onError?.(error, this.context); throw error\<close>.
  A failure of \<open>onError\<close> itself leaves the block in place of \<open>error\<close>.
\<close>

definition catch_block ::
  "state_id \<Rightarrow> ('e, 'c) FSMStateHandler \<Rightarrow> ('e, 'c) FSM \<Rightarrow> error \<Rightarrow>
   ('e, 'c) obs list \<times> error" where
  "catch_block s h eng err =
     (case onError h of
        None \<Rightarrow> ([], err)
      | Some f \<Rightarrow>
          ([OnError s err (context eng)],
           case f err (context eng) of Inl err' \<Rightarrow> err' | Inr _ \<Rightarrow> err))"

subsection \<open>The generator\<close>

text \<open>
  Where the generator object of \<open>run()\<close> stands between two calls of \<open>next()\<close>:
  not started, suspended at the \<open>yield\<close> (with the locals \<open>stateHandler\<close> and
  \<open>result\<close>, and the state the handler was read for), or completed. \<open>run()\<close> itself
  executes nothing. Of the generator's methods only \<open>next()\<close> is modelled, not
  \<open>return()\<close> and \<open>throw()\<close>.
\<close>

datatype ('e, 'c) generator =
    SuspendedStart
  | SuspendedYield state_id "('e, 'c) FSMStateHandler" "('e, 'c) FSMStateResult"
  | Completed

datatype 'e iter_result = Yielded 'e | Returned | Thrown error

definition run :: "('e, 'c) generator" where
  "run = SuspendedStart"

text \<open>
  The condition of the \<open>while\<close>: \<open>this.currentState && this.states[this.currentState]\<close>.
  A handler and a member of \<open>Object.prototype\<close> are both true values.
\<close>

definition loop_guard :: "('e, 'c) FSM \<Rightarrow> bool" where
  "loop_guard eng =
     (case currentState eng of
        None \<Rightarrow> False
      | Some s \<Rightarrow> truthy s \<and> state_read (states eng) s \<noteq> NoProperty)"

text \<open>
  From the test of the \<open>while\<close> to the next \<open>yield\<close>, return or throw. When
  \<open>stateHandler\<close> is a member of \<open>Object.prototype\<close>, it has none of the hooks, so
  \<open>onEnter?.\<close> calls nothing; \<open>stateHandler.execute(...)\<close> is a call of \<open>undefined\<close> and
  throws a \<open>TypeError\<close>; the \<open>catch\<close> block finds no \<open>onError\<close> and throws it again.
\<close>

definition loop_head ::
  "('e, 'c) FSM \<Rightarrow>
   ('e, 'c) FSM \<times> ('e, 'c) generator \<times> 'e iter_result \<times> ('e, 'c) obs list" where
  "loop_head eng =
     (case currentState eng of
        None \<Rightarrow> (eng, Completed, Returned, [])
      | Some s \<Rightarrow>
          if truthy s then
            (case state_read (states eng) s of
               NoProperty \<Rightarrow> (eng, Completed, Returned, [])
             | InheritedProperty name \<Rightarrow>
                 (eng, Completed,
                  Thrown (TypeError ''stateHandler.execute is not a function''), [])
             | OwnProperty h \<Rightarrow>
                 (case try_block s h eng of
                    (tr, eng', Inr result) \<Rightarrow>
                      (eng', SuspendedYield s h result, Yielded (event result),
                       tr @ [Yield (event result)])
                  | (tr, eng', Inl err) \<Rightarrow>
                      (case catch_block s h eng' err of
                         (tr', err') \<Rightarrow> (eng', Completed, Thrown err', tr @ tr'))))
          else (eng, Completed, Returned, []))"

text \<open>
  Resuming after the \<open>yield\<close>:
  \<open>this.currentState = stateHandler.transition(result.event, this.context)\<close>, still
  inside the \<open>try\<close>, then the loop again.
\<close>

definition resume ::
  "state_id \<Rightarrow> ('e, 'c) FSMStateHandler \<Rightarrow> ('e, 'c) FSMStateResult \<Rightarrow> ('e, 'c) FSM \<Rightarrow>
   ('e, 'c) FSM \<times> ('e, 'c) generator \<times> 'e iter_result \<times> ('e, 'c) obs list" where
  "resume s h result eng =
     (case transition h (event result) (context eng) of
        Inl err \<Rightarrow>
          (case catch_block s h eng err of
             (tr', err') \<Rightarrow>
               (eng, Completed, Thrown err',
                Transition s (event result) (context eng) # tr'))
      | Inr nextState \<Rightarrow>
          (case loop_head (eng\<lparr>currentState := nextState\<rparr>) of
             (eng', g', res, tr) \<Rightarrow>
               (eng', g', res, Transition s (event result) (context eng) # tr)))"

text \<open>One call of \<open>next()\<close> on the generator.\<close>

fun gen_next ::
  "('e, 'c) FSM \<Rightarrow> ('e, 'c) generator \<Rightarrow>
   ('e, 'c) FSM \<times> ('e, 'c) generator \<times> 'e iter_result \<times> ('e, 'c) obs list" where
  "gen_next eng SuspendedStart = loop_head eng"
| "gen_next eng (SuspendedYield s h result) = resume s h result eng"
| "gen_next eng Completed = (eng, Completed, Returned, [])"

subsection \<open>The consumer\<close>

text \<open>
  \<open>for await (const event of fsm.run()) { }\<close>: the consumer that pulls until the
  generator returns or throws and does nothing else to the engine. The first
  argument bounds the number of pulls; \<open>None\<close> says that the bound was reached.
\<close>

datatype completion = Finished | Failed error

record ('e, 'c) run_result =
  trace :: "('e, 'c) obs list"
  outcome :: completion
  engine :: "('e, 'c) FSM"

fun for_await ::
  "nat \<Rightarrow> ('e, 'c) FSM \<Rightarrow> ('e, 'c) generator \<Rightarrow> ('e, 'c) run_result option" where
  "for_await 0 eng g = None"
| "for_await (Suc n) eng g =
     (case gen_next eng g of
        (eng', g', Yielded ev, tr) \<Rightarrow>
          map_option (\<lambda>r. r\<lparr>trace := tr @ trace r\<rparr>) (for_await n eng' g')
      | (eng', g', Returned, tr) \<Rightarrow> Some \<lparr>trace = tr, outcome = Finished, engine = eng'\<rparr>
      | (eng', g', Thrown err, tr) \<Rightarrow> Some \<lparr>trace = tr, outcome = Failed err, engine = eng'\<rparr>)"

text \<open>
  The consumer that pulls \<open>n\<close> times and stops, whether the run has ended or not:
  the calls so far, the engine and the generator as they stand. A pull on a
  completed generator does nothing.
\<close>

fun pull_n ::
  "nat \<Rightarrow> ('e, 'c) FSM \<Rightarrow> ('e, 'c) generator \<Rightarrow>
   ('e, 'c) obs list \<times> ('e, 'c) FSM \<times> ('e, 'c) generator" where
  "pull_n 0 eng g = ([], eng, g)"
| "pull_n (Suc n) eng g =
     (case gen_next eng g of
        (eng', g', res, tr) \<Rightarrow>
          (case pull_n n eng' g' of (tr', eng'', g'') \<Rightarrow> (tr @ tr', eng'', g'')))"

text \<open>The events the consumer received.\<close>

fun emitted :: "('e, 'c) obs list \<Rightarrow> 'e list" where
  "emitted [] = []"
| "emitted (Yield ev # tr) = ev # emitted tr"
| "emitted (x # tr) = emitted tr"

section \<open>Vocabulary of the properties\<close>

subsection \<open>Failing calls\<close>

text \<open>
  The failure a logged call ends with, when it ends with one: the callback of the
  handler of that state, applied to the logged arguments.
\<close>

fun raises :: "('e, 'c) FSMStateMap \<Rightarrow> ('e, 'c) obs \<Rightarrow> error option" where
  "raises m (OnEnter s c) =
     (case m s of None \<Rightarrow> None | Some h \<Rightarrow>
        (case onEnter h of None \<Rightarrow> None | Some f \<Rightarrow>
           (case f c of Inl err \<Rightarrow> Some err | Inr _ \<Rightarrow> None)))"
| "raises m (Execute s c) =
     (case m s of None \<Rightarrow> None | Some h \<Rightarrow>
        (case execute h c of Inl err \<Rightarrow> Some err | Inr _ \<Rightarrow> None))"
| "raises m (Commit c) = None"
| "raises m (OnExit s ev c) =
     (case m s of None \<Rightarrow> None | Some h \<Rightarrow>
        (case onExit h of None \<Rightarrow> None | Some f \<Rightarrow>
           (case f ev c of Inl err \<Rightarrow> Some err | Inr _ \<Rightarrow> None)))"
| "raises m (Yield ev) = None"
| "raises m (Transition s ev c) =
     (case m s of None \<Rightarrow> None | Some h \<Rightarrow>
        (case transition h ev c of Inl err \<Rightarrow> Some err | Inr _ \<Rightarrow> None))"
| "raises m (OnError s err c) =
     (case m s of None \<Rightarrow> None | Some h \<Rightarrow>
        (case onError h of None \<Rightarrow> None | Some f \<Rightarrow>
           (case f err c of Inl err' \<Rightarrow> Some err' | Inr _ \<Rightarrow> None)))"

text \<open>The state whose handler is called, and the context it is called with.\<close>

fun subject :: "('e, 'c) obs \<Rightarrow> (state_id \<times> 'c) option" where
  "subject (OnEnter s c) = Some (s, c)"
| "subject (Execute s c) = Some (s, c)"
| "subject (Commit c) = None"
| "subject (OnExit s ev c) = Some (s, c)"
| "subject (Yield ev) = None"
| "subject (Transition s ev c) = Some (s, c)"
| "subject (OnError s err c) = Some (s, c)"

fun is_OnError :: "('e, 'c) obs \<Rightarrow> bool" where
  "is_OnError (OnError s err c) = True"
| "is_OnError x = False"

text \<open>The calls of \<open>onError\<close> a handler admits: one when it has the hook, none otherwise.\<close>

definition onError_calls ::
  "('e, 'c) FSMStateHandler \<Rightarrow> state_id \<Rightarrow> error \<Rightarrow> 'c \<Rightarrow> ('e, 'c) obs list" where
  "onError_calls h s err c = (case onError h of None \<Rightarrow> [] | Some f \<Rightarrow> [OnError s err c])"

text \<open>\<open>onError\<close> is absent, or returns when it is given this failure and context.\<close>

definition onError_returns :: "('e, 'c) FSMStateHandler \<Rightarrow> error \<Rightarrow> 'c \<Rightarrow> bool" where
  "onError_returns h err c = (case onError h of None \<Rightarrow> True | Some f \<Rightarrow> f err c = Inr ())"

subsection \<open>The order of a step\<close>

text \<open>
  A monitor that reads a trace from left to right. It starts a step in
  \<open>BeforeExecute\<close>; an \<open>execute\<close> of the handler of \<open>s\<close> that returned \<open>result\<close>
  takes it to \<open>AwaitCommit s result\<close>, where only the assignment of the context of
  \<open>result\<close> is accepted; in \<open>Committed s result\<close> it accepts \<open>onExit\<close> and \<open>yield\<close>,
  for the state \<open>s\<close> and with the event and the context of \<open>result\<close>; in
  \<open>Emitted s result\<close> it accepts the transition of \<open>s\<close> with them, and nothing
  else. A call of \<open>onError\<close> ends the trace. Everything else is refused (\<open>None\<close>).
\<close>

datatype ('e, 'c) phase =
    BeforeExecute
  | AwaitCommit state_id "('e, 'c) FSMStateResult"
  | Committed state_id "('e, 'c) FSMStateResult"
  | Emitted state_id "('e, 'c) FSMStateResult"
  | Halted

fun observe ::
  "('e, 'c) FSMStateMap \<Rightarrow> ('e, 'c) phase \<Rightarrow> ('e, 'c) obs \<Rightarrow> ('e, 'c) phase option" where
  "observe m BeforeExecute (OnEnter s c) = Some BeforeExecute"
| "observe m BeforeExecute (Execute s c) =
     (case m s of
        None \<Rightarrow> None
      | Some h \<Rightarrow>
          (case execute h c of
             Inl err \<Rightarrow> Some BeforeExecute
           | Inr result \<Rightarrow> Some (AwaitCommit s result)))"
| "observe m (AwaitCommit s result) (Commit c) =
     (if c = FSMStateResult.context result then Some (Committed s result) else None)"
| "observe m (Committed s result) (OnExit s' ev c) =
     (if s' = s \<and> ev = event result \<and> c = FSMStateResult.context result
      then Some (Committed s result) else None)"
| "observe m (Committed s result) (Yield ev) =
     (if ev = event result then Some (Emitted s result) else None)"
| "observe m (Emitted s result) (Transition s' ev c) =
     (if s' = s \<and> ev = event result \<and> c = FSMStateResult.context result
      then Some BeforeExecute else None)"
| "observe m BeforeExecute (OnError s err c) = Some Halted"
| "observe m (Committed s result) (OnError s' err c) = Some Halted"
| "observe m ph x = None"

fun after ::
  "('e, 'c) FSMStateMap \<Rightarrow> ('e, 'c) phase \<Rightarrow> ('e, 'c) obs list \<Rightarrow> ('e, 'c) phase option" where
  "after m ph [] = Some ph"
| "after m ph (x # tr) = (case observe m ph x of None \<Rightarrow> None | Some ph' \<Rightarrow> after m ph' tr)"

text \<open>
  Where the monitor may stand when the consumer stops pulling: in
  \<open>Emitted s result\<close> exactly when the generator is suspended at the \<open>yield\<close> of that
  step (the transition of a step is the first call of the next pull), at the
  start of a step when the generator has not started, and never between an
  \<open>execute\<close> that returned and the assignment. A completed generator leaves it at
  the start of a step, after an \<open>onError\<close>, or after a failed \<open>onExit\<close> that no
  \<open>onError\<close> followed.
\<close>

fun resting :: "('e, 'c) generator \<Rightarrow> ('e, 'c) phase \<Rightarrow> bool" where
  "resting SuspendedStart ph = (ph = BeforeExecute)"
| "resting (SuspendedYield s h result) ph = (ph = Emitted s result)"
| "resting Completed BeforeExecute = True"
| "resting Completed (Committed s result) = True"
| "resting Completed Halted = True"
| "resting Completed ph = False"

definition step_order ::
  "('e, 'c) FSMStateMap \<Rightarrow> ('e, 'c) generator \<Rightarrow> ('e, 'c) obs list \<Rightarrow> bool" where
  "step_order m g tr =
     (case after m BeforeExecute tr of None \<Rightarrow> False | Some ph \<Rightarrow> resting g ph)"

text \<open>What holds of the engine at a suspended generator as long as the consumer
  only pulls.\<close>

fun gen_inv :: "('e, 'c) FSM \<Rightarrow> ('e, 'c) generator \<Rightarrow> bool" where
  "gen_inv eng (SuspendedYield s h result) =
     (states eng s = Some h \<and> currentState eng = Some s \<and>
      context eng = FSMStateResult.context result)"
| "gen_inv eng g = True"

subsection \<open>State maps whose runs end\<close>

text \<open>No callback of the map fails (\<open>onError\<close> is then never called).\<close>

definition never_fail :: "('e, 'c) FSMStateMap \<Rightarrow> bool" where
  "never_fail m =
     (\<forall>s h. m s = Some h \<longrightarrow>
        (\<forall>c. \<exists>result. execute h c = Inr result) \<and>
        (\<forall>f c. onEnter h = Some f \<longrightarrow> f c = Inr ()) \<and>
        (\<forall>f ev c. onExit h = Some f \<longrightarrow> f ev c = Inr ()) \<and>
        (\<forall>ev c. \<exists>nextState. transition h ev c = Inr nextState))"

text \<open>
  \<open>(s', s)\<close>: the handler of the mapped state \<open>s\<close> can send the machine to \<open>s'\<close>,
  on an event and a context that its own \<open>execute\<close> can return. Every transition
  path reaches the end of the run when this relation is well-founded.
\<close>

definition successor :: "('e, 'c) FSMStateMap \<Rightarrow> (state_id \<times> state_id) set" where
  "successor m =
     {(s', s). truthy s \<and>
        (\<exists>h c result. m s = Some h \<and> execute h c = Inr result \<and>
           transition h (event result) (FSMStateResult.context result) = Inr (Some s'))}"

section \<open>Machines\<close>

text \<open>
  Scenario 1: \<open>idle\<close> yields \<open>go\<close> and goes to \<open>loading\<close>, \<open>loading\<close> yields
  \<open>done\<close> and goes to \<open>success\<close>, the transition of \<open>success\<close> terminates. What the two
  first states do to the context, and the \<open>execute\<close> of \<open>success\<close>, are parameters.
\<close>

definition scenario1 ::
  "('c \<Rightarrow> 'c) \<Rightarrow> ('c \<Rightarrow> 'c) \<Rightarrow> ('c \<Rightarrow> error + (typed_event, 'c) FSMStateResult) \<Rightarrow>
   (typed_event, 'c) FSMStateMap" where
  "scenario1 f g exec3 =
     [StrId ''idle'' \<mapsto>
        createState (\<lambda>c. Inr \<lparr>event = \<lparr>type = ''go''\<rparr>, context = f c\<rparr>)
          (transitionTo (StrId ''loading'')) no_options,
      StrId ''loading'' \<mapsto>
        createState (\<lambda>c. Inr \<lparr>event = \<lparr>type = ''done''\<rparr>, context = g c\<rparr>)
          (transitionTo (StrId ''success'')) no_options,
      StrId ''success'' \<mapsto> createState exec3 finalTransition no_options]"

text \<open>A final state as the README writes it: it yields \<open>complete\<close>.\<close>

definition complete :: "'c \<Rightarrow> error + (typed_event, 'c) FSMStateResult" where
  "complete c = Inr \<lparr>event = \<lparr>type = ''complete''\<rparr>, context = c\<rparr>"

text \<open>One mapped state that sends the machine to a state without a handler.\<close>

definition fetch_only :: "(typed_event, unit) FSMStateMap" where
  "fetch_only =
     [StrId ''idle'' \<mapsto>
        createState (\<lambda>c. Inr \<lparr>event = \<lparr>type = ''fetch''\<rparr>, context = c\<rparr>)
          (transitionTo (StrId ''loading'')) no_options]"

text \<open>
  The only state sends the machine to \<open>valueOf\<close>, which has no entry in the map
  and names a member of \<open>Object.prototype\<close>.
\<close>

definition to_valueOf :: "(typed_event, unit) FSMStateMap" where
  "to_valueOf =
     [StrId ''idle'' \<mapsto>
        createState (\<lambda>c. Inr \<lparr>event = \<lparr>type = ''go''\<rparr>, context = c\<rparr>)
          (transitionTo (StrId ''valueOf'')) no_options]"

text \<open>
  A machine that never stops: \<open>off\<close> and \<open>on\<close> send the machine to each other.
  Each \<open>execute\<close> counts the context up, and each state has an \<open>onExit\<close>.
\<close>

definition blink :: "string \<Rightarrow> string \<Rightarrow> (typed_event, nat) FSMStateHandler" where
  "blink tag target =
     \<lparr>execute = (\<lambda>c. Inr \<lparr>event = \<lparr>type = tag\<rparr>, context = Suc c\<rparr>),
      onEnter = None,
      onExit = Some (\<lambda>ev c. Inr ()),
      onError = None,
      transition = transitionTo (StrId target)\<rparr>"

definition blinker :: "(typed_event, nat) FSMStateMap" where
  "blinker = [StrId ''off'' \<mapsto> blink ''lit'' ''on'', StrId ''on'' \<mapsto> blink ''dark'' ''off'']"

text \<open>A handler whose \<open>onExit\<close> fails, and one whose transition fails; both have
  an \<open>onError\<close> that returns. Their \<open>execute\<close> counts the context up.\<close>

definition exit_fails :: "(typed_event, nat) FSMStateHandler" where
  "exit_fails =
     \<lparr>execute = (\<lambda>c. Inr \<lparr>event = \<lparr>type = ''go''\<rparr>, context = Suc c\<rparr>),
      onEnter = None,
      onExit = Some (\<lambda>ev c. Inl (Error ''exit'')),
      onError = Some (\<lambda>err c. Inr ()),
      transition = transitionTo (StrId ''loading'')\<rparr>"

definition transition_fails :: "(typed_event, nat) FSMStateHandler" where
  "transition_fails =
     \<lparr>execute = (\<lambda>c. Inr \<lparr>event = \<lparr>type = ''go''\<rparr>, context = Suc c\<rparr>),
      onEnter = None,
      onExit = None,
      onError = Some (\<lambda>err c. Inr ()),
      transition = (\<lambda>ev c. Inl (Error ''transition''))\<rparr>"

section \<open>One pull\<close>

text \<open>The read of the state map, and what the \<open>try\<close> block, the loop and one pull
  leave behind, by outcome.\<close>

lemma state_read_own: "m s = Some h \<Longrightarrow> state_read m s = OwnProperty h"
  by (simp add: state_read_def)

lemma state_read_OwnD: "state_read m s = OwnProperty h \<Longrightarrow> m s = Some h"
  by (auto simp: state_read_def split: option.splits state_id.splits if_splits)

lemma state_read_absent:
  "m s = None \<Longrightarrow> (\<forall>name. s = StrId name \<longrightarrow> name \<notin> set object_prototype_names) \<Longrightarrow>
     state_read m s = NoProperty"
  by (auto simp: state_read_def split: state_id.splits)

lemma try_block_ok:
  assumes "try_block s h eng = (tr, eng', Inr result)" "states eng s = Some h"
  shows "(\<forall>x\<in>set tr. raises (states eng) x = None) \<and> eng' = eng\<lparr>context := FSMStateResult.context result\<rparr>
     \<and> execute h (context eng) = Inr result"
  using assms
  by (auto simp: try_block_def Let_def split: option.splits sum.splits)

lemma try_block_fail:
  assumes "try_block s h eng = (tr, eng', Inl err)" "states eng s = Some h"
  shows "\<exists>pre call. tr = pre @ [call] \<and> (\<forall>x\<in>set pre. raises (states eng) x = None)
     \<and> raises (states eng) call = Some err \<and> subject call = Some (s, context eng') \<and> \<not> is_OnError call
     \<and> states eng' = states eng \<and> currentState eng' = currentState eng
     \<and> (\<forall>ev c. call = OnExit s ev c \<longrightarrow> pre \<noteq> [] \<and> last pre = Commit c)
     \<and> (\<forall>ev c. call \<noteq> Transition s ev c)"
  using assms
  apply (simp add: try_block_def Let_def split: option.splits sum.splits)
      apply auto
  done

lemma catch_block_shape:
  "catch_block s h eng err = (tr', err') \<Longrightarrow>
     tr' = onError_calls h s err (context eng) \<and> (\<forall>x\<in>set tr'. is_OnError x)
     \<and> ((case onError h of None \<Rightarrow> True | Some f \<Rightarrow> f err (context eng) = Inr ()) \<longrightarrow> err' = err)"
  by (auto simp: catch_block_def onError_calls_def split: option.splits sum.splits)

lemma loop_head_yield:
  assumes "loop_head eng = (eng', g', Yielded ev, tr)"
  shows "(\<forall>x\<in>set tr. raises (states eng) x = None) \<and> gen_inv eng' g' \<and> states eng' = states eng"
  using assms
  by (auto simp: loop_head_def split: option.splits if_splits prod.splits sum.splits property.splits
      dest!: state_read_OwnD try_block_ok)

lemma loop_head_return:
  assumes "loop_head eng = (eng', g', Returned, tr)"
  shows "tr = [] \<and> eng' = eng \<and> g' = Completed \<and> \<not> loop_guard eng"
  using assms
  by (auto simp: loop_head_def loop_guard_def
      split: option.splits if_splits prod.splits sum.splits property.splits)

text \<open>A throw of the loop is the \<open>TypeError\<close> of a state read from the prototype,
  with no call made, or follows a failing call of an own handler.\<close>

lemma loop_head_throw:
  assumes "loop_head eng = (eng', g', Thrown err', tr)"
  shows "(tr = [] \<and> eng' = eng \<and>
          (\<exists>s name. currentState eng = Some s \<and> state_read (states eng) s = InheritedProperty name)) \<or>
     (\<exists>pre call s h err. tr = pre @ call # onError_calls h s err (context eng')
     \<and> (\<forall>x\<in>set pre. raises (states eng) x = None)
     \<and> raises (states eng) call = Some err \<and> subject call = Some (s, context eng') \<and> \<not> is_OnError call
     \<and> states eng s = Some h \<and> currentState eng' = Some s \<and> states eng' = states eng
     \<and> catch_block s h eng' err = (onError_calls h s err (context eng'), err')
     \<and> (\<forall>ev c. call = OnExit s ev c \<longrightarrow> pre \<noteq> [] \<and> last pre = Commit c)
     \<and> (\<forall>ev c. call \<noteq> Transition s ev c))"
proof -
  from assms obtain s where cs: "currentState eng = Some s" "truthy s"
    by (auto simp: loop_head_def split: option.splits if_splits)
  show ?thesis
  proof (cases "state_read (states eng) s")
    case NoProperty
    with assms cs show ?thesis by (simp add: loop_head_def)
  next
    case (InheritedProperty name)
    with assms cs show ?thesis by (auto simp: loop_head_def)
  next
    case (OwnProperty h)
    then have h: "states eng s = Some h" by (rule state_read_OwnD)
    from assms cs OwnProperty obtain tr1 err tr2 where
      tb: "try_block s h eng = (tr1, eng', Inl err)"
      and cb: "catch_block s h eng' err = (tr2, err')" and tr: "tr = tr1 @ tr2"
      by (auto simp: loop_head_def split: prod.splits sum.splits)
    from try_block_fail[OF tb h] obtain pre call where
      p: "tr1 = pre @ [call]" "\<forall>x\<in>set pre. raises (states eng) x = None"
       "raises (states eng) call = Some err" "subject call = Some (s, context eng')" "\<not> is_OnError call"
       "states eng' = states eng" "currentState eng' = currentState eng"
       "\<forall>ev c. call = OnExit s ev c \<longrightarrow> pre \<noteq> [] \<and> last pre = Commit c"
       "\<forall>ev c. call \<noteq> Transition s ev c"
      by blast
    from catch_block_shape[OF cb] have t2: "tr2 = onError_calls h s err (context eng')" by simp
    have "\<exists>pre call s h err. tr = pre @ call # onError_calls h s err (context eng')
     \<and> (\<forall>x\<in>set pre. raises (states eng) x = None)
     \<and> raises (states eng) call = Some err \<and> subject call = Some (s, context eng') \<and> \<not> is_OnError call
     \<and> states eng s = Some h \<and> currentState eng' = Some s \<and> states eng' = states eng
     \<and> catch_block s h eng' err = (onError_calls h s err (context eng'), err')
     \<and> (\<forall>ev c. call = OnExit s ev c \<longrightarrow> pre \<noteq> [] \<and> last pre = Commit c)
     \<and> (\<forall>ev c. call \<noteq> Transition s ev c)"
      apply (rule exI[of _ pre], rule exI[of _ call], rule exI[of _ s], rule exI[of _ h], rule exI[of _ err])
      using p t2 tr cs h cb by simp
    then show ?thesis ..
  qed
qed

lemma gen_next_done:
  "gen_next eng g = (eng', g', res, tr) \<Longrightarrow> (\<forall>ev. res \<noteq> Yielded ev) \<Longrightarrow> g' = Completed"
  by (cases g)
     (auto simp: loop_head_def resume_def
       split: option.splits if_splits prod.splits sum.splits property.splits)

lemma gen_next_yield:
  assumes "gen_next eng g = (eng', g', Yielded ev, tr)" "gen_inv eng g"
  shows "(\<forall>x\<in>set tr. raises (states eng) x = None) \<and> gen_inv eng' g' \<and> states eng' = states eng"
proof (cases g)
  case SuspendedStart
  with assms loop_head_yield show ?thesis by simp
next
  case (SuspendedYield s h result)
  with assms obtain ns tr0 where
    t: "transition h (event result) (context eng) = Inr ns"
    and l: "loop_head (eng\<lparr>currentState := ns\<rparr>) = (eng', g', Yielded ev, tr0)"
    and tr: "tr = Transition s (event result) (context eng) # tr0"
    by (auto simp: resume_def split: sum.splits prod.splits)
  from loop_head_yield[OF l] t tr SuspendedYield assms(2) show ?thesis by simp
next
  case Completed
  with assms show ?thesis by simp
qed

lemma gen_next_return:
  assumes "gen_next eng g = (eng', g', Returned, tr)" "gen_inv eng g"
  shows "\<forall>x\<in>set tr. raises (states eng) x = None"
proof (cases g)
  case SuspendedStart
  with assms loop_head_return[of eng eng' g' tr] show ?thesis by simp
next
  case (SuspendedYield s h result)
  with assms obtain ns tr0 where
    t: "transition h (event result) (context eng) = Inr ns"
    and l: "loop_head (eng\<lparr>currentState := ns\<rparr>) = (eng', g', Returned, tr0)"
    and tr: "tr = Transition s (event result) (context eng) # tr0"
    by (auto simp: resume_def split: sum.splits prod.splits)
  from loop_head_return[OF l] t tr SuspendedYield assms(2) show ?thesis by simp
next
  case Completed
  with assms show ?thesis by simp
qed

lemma gen_next_throw:
  assumes "gen_next eng g = (eng', g', Thrown err', tr)" "gen_inv eng g"
  shows "(\<forall>x\<in>set tr. raises (states eng) x = None) \<or>
     (\<exists>pre call s h err. tr = pre @ call # onError_calls h s err (context eng')
     \<and> (\<forall>x\<in>set pre. raises (states eng) x = None)
     \<and> raises (states eng) call = Some err \<and> subject call = Some (s, context eng') \<and> \<not> is_OnError call
     \<and> states eng s = Some h \<and> currentState eng' = Some s
     \<and> catch_block s h eng' err = (onError_calls h s err (context eng'), err')
     \<and> (\<forall>ev c. call = OnExit s ev c \<longrightarrow> pre \<noteq> [] \<and> last pre = Commit c))"
proof (cases g)
  case SuspendedStart
  with assms have "loop_head eng = (eng', g', Thrown err', tr)" by simp
  from loop_head_throw[OF this] show ?thesis
    apply (elim disjE exE conjE)
     apply simp
    apply (rule disjI2)
    apply (intro exI conjI; assumption)
    done
next
  case (SuspendedYield s h result)
  show ?thesis
  proof (cases "transition h (event result) (context eng)")
    case (Inl err)
    with assms SuspendedYield obtain tr' where
      cb: "catch_block s h eng err = (tr', err')" and e: "eng' = eng"
      and tr: "tr = Transition s (event result) (context eng) # tr'"
      by (auto simp: resume_def split: prod.splits)
    from catch_block_shape[OF cb] have t2: "tr' = onError_calls h s err (context eng)" by simp
    have "\<exists>pre call s h err. tr = pre @ call # onError_calls h s err (context eng')
     \<and> (\<forall>x\<in>set pre. raises (states eng) x = None)
     \<and> raises (states eng) call = Some err \<and> subject call = Some (s, context eng') \<and> \<not> is_OnError call
     \<and> states eng s = Some h \<and> currentState eng' = Some s
     \<and> catch_block s h eng' err = (onError_calls h s err (context eng'), err')
     \<and> (\<forall>ev c. call = OnExit s ev c \<longrightarrow> pre \<noteq> [] \<and> last pre = Commit c)"
      apply (rule exI[of _ "[]"], rule exI[of _ "Transition s (event result) (context eng)"],
             rule exI[of _ s], rule exI[of _ h], rule exI[of _ err])
      using Inl cb e tr t2 SuspendedYield assms(2) by simp
    then show ?thesis ..
  next
    case (Inr ns)
    with assms SuspendedYield obtain tr0 where
      l: "loop_head (eng\<lparr>currentState := ns\<rparr>) = (eng', g', Thrown err', tr0)"
      and tr: "tr = Transition s (event result) (context eng) # tr0"
      by (auto simp: resume_def split: prod.splits)
    have ok: "raises (states eng) (Transition s (event result) (context eng)) = None"
      using Inr SuspendedYield assms(2) by simp
    from loop_head_throw[OF l] show ?thesis
    proof
      assume "tr0 = [] \<and> eng' = eng\<lparr>currentState := ns\<rparr> \<and>
          (\<exists>s name. currentState (eng\<lparr>currentState := ns\<rparr>) = Some s \<and>
             state_read (states (eng\<lparr>currentState := ns\<rparr>)) s = InheritedProperty name)"
      with tr ok show ?thesis by simp
    next
      assume "\<exists>pre call s h err. tr0 = pre @ call # onError_calls h s err (context eng')
         \<and> (\<forall>x\<in>set pre. raises (states (eng\<lparr>currentState := ns\<rparr>)) x = None)
         \<and> raises (states (eng\<lparr>currentState := ns\<rparr>)) call = Some err
         \<and> subject call = Some (s, context eng') \<and> \<not> is_OnError call
         \<and> states (eng\<lparr>currentState := ns\<rparr>) s = Some h \<and> currentState eng' = Some s
         \<and> states eng' = states (eng\<lparr>currentState := ns\<rparr>)
         \<and> catch_block s h eng' err = (onError_calls h s err (context eng'), err')
         \<and> (\<forall>ev c. call = OnExit s ev c \<longrightarrow> pre \<noteq> [] \<and> last pre = Commit c)
         \<and> (\<forall>ev c. call \<noteq> Transition s ev c)"
      then obtain pre call s' h' err where
        p: "tr0 = pre @ call # onError_calls h' s' err (context eng')"
        "\<forall>x\<in>set pre. raises (states eng) x = None"
        "raises (states eng) call = Some err" "subject call = Some (s', context eng')" "\<not> is_OnError call"
        "states eng s' = Some h'" "currentState eng' = Some s'"
        "catch_block s' h' eng' err = (onError_calls h' s' err (context eng'), err')"
        "\<forall>ev c. call = OnExit s' ev c \<longrightarrow> pre \<noteq> [] \<and> last pre = Commit c"
        by auto
      have "\<exists>pre call s h err. tr = pre @ call # onError_calls h s err (context eng')
       \<and> (\<forall>x\<in>set pre. raises (states eng) x = None)
       \<and> raises (states eng) call = Some err \<and> subject call = Some (s, context eng') \<and> \<not> is_OnError call
       \<and> states eng s = Some h \<and> currentState eng' = Some s
       \<and> catch_block s h eng' err = (onError_calls h s err (context eng'), err')
       \<and> (\<forall>ev c. call = OnExit s ev c \<longrightarrow> pre \<noteq> [] \<and> last pre = Commit c)"
        apply (rule exI[of _ "Transition s (event result) (context eng) # pre"], rule exI[of _ call],
               rule exI[of _ s'], rule exI[of _ h'], rule exI[of _ err])
        using p tr ok by simp
      then show ?thesis ..
    qed
  qed
next
  case Completed
  with assms show ?thesis by simp
qed

section \<open>A failing call ends the run\<close>

lemma split_after_prefix:
  assumes "tr @ ys = pre @ call # post" "call \<notin> set tr"
  shows "\<exists>pre'. pre = tr @ pre' \<and> ys = pre' @ call # post"
  using assms
  by (induction tr arbitrary: pre) (auto simp: Cons_eq_append_conv)

lemma split_unique:
  assumes "pre @ call # post = pre0 @ call0 # oc" "call \<notin> set pre0" "call \<notin> set oc"
  shows "pre = pre0 \<and> call = call0 \<and> post = oc"
  using assms
  by (induction pre arbitrary: pre0) (auto simp: Cons_eq_append_conv append_eq_Cons_conv)

lemma failing_call_ends_run:
  assumes "for_await n eng g = Some r" "gen_inv eng g"
    and "trace r = pre @ call # post"
    and "raises (states eng) call = Some err" "\<not> is_OnError call"
  shows "\<exists>s h. subject call = Some (s, context (engine r)) \<and> states eng s = Some h
      \<and> post = onError_calls h s err (context (engine r))
      \<and> outcome r = Failed (snd (catch_block s h (engine r) err))
      \<and> currentState (engine r) = Some s
      \<and> (\<forall>ev c. call = OnExit s ev c \<longrightarrow> pre \<noteq> [] \<and> last pre = Commit c)"
  using assms
proof (induction n arbitrary: eng g r pre)
  case 0
  then show ?case by simp
next
  case (Suc n)
  obtain eng' g' res tr where gn: "gen_next eng g = (eng', g', res, tr)"
    by (cases "gen_next eng g") auto
  show ?case
  proof (cases res)
    case (Yielded ev)
    with Suc.prems(1) gn obtain r' where
      r': "for_await n eng' g' = Some r'" and r: "r = r'\<lparr>trace := tr @ trace r'\<rparr>"
      by auto
    from gen_next_yield[OF gn[unfolded Yielded] Suc.prems(2)] have
      nr: "\<forall>x\<in>set tr. raises (states eng) x = None" and inv': "gen_inv eng' g'"
      and st: "states eng' = states eng" by auto
    from nr Suc.prems(4) have "call \<notin> set tr" by auto
    with Suc.prems(3) r obtain pre' where
      pre: "pre = tr @ pre'" and t': "trace r' = pre' @ call # post"
      using split_after_prefix[of tr "trace r'" pre call post] by auto
    from Suc.IH[OF r' inv' t'] Suc.prems(4,5) st obtain s h where
      "subject call = Some (s, context (engine r'))" "states eng s = Some h"
      "post = onError_calls h s err (context (engine r'))"
      "outcome r' = Failed (snd (catch_block s h (engine r') err))"
      "currentState (engine r') = Some s"
      "\<forall>ev c. call = OnExit s ev c \<longrightarrow> pre' \<noteq> [] \<and> last pre' = Commit c"
      by auto
    with r pre show ?thesis by auto
  next
    case Returned
    with Suc.prems(1) gn have r: "trace r = tr" by auto
    from gen_next_return[OF gn[unfolded Returned] Suc.prems(2)] r Suc.prems(3,4)
    show ?thesis by auto
  next
    case (Thrown err')
    with Suc.prems(1) gn have r: "r = \<lparr>trace = tr, outcome = Failed err', engine = eng'\<rparr>" by auto
    from gen_next_throw[OF gn[unfolded Thrown] Suc.prems(2)] show ?thesis
    proof
      assume "\<forall>x\<in>set tr. raises (states eng) x = None"
      with r Suc.prems(3,4) show ?thesis by auto
    next
      assume "\<exists>pre call s h err. tr = pre @ call # onError_calls h s err (context eng')
         \<and> (\<forall>x\<in>set pre. raises (states eng) x = None)
         \<and> raises (states eng) call = Some err \<and> subject call = Some (s, context eng') \<and> \<not> is_OnError call
         \<and> states eng s = Some h \<and> currentState eng' = Some s
         \<and> catch_block s h eng' err = (onError_calls h s err (context eng'), err')
         \<and> (\<forall>ev c. call = OnExit s ev c \<longrightarrow> pre \<noteq> [] \<and> last pre = Commit c)"
      then obtain pre0 call0 s h err0 where
        p: "tr = pre0 @ call0 # onError_calls h s err0 (context eng')"
        "\<forall>x\<in>set pre0. raises (states eng) x = None"
        "raises (states eng) call0 = Some err0" "subject call0 = Some (s, context eng')"
        "states eng s = Some h" "currentState eng' = Some s"
        "catch_block s h eng' err0 = (onError_calls h s err0 (context eng'), err')"
        "\<forall>ev c. call0 = OnExit s ev c \<longrightarrow> pre0 \<noteq> [] \<and> last pre0 = Commit c"
        by blast
      have "call \<notin> set pre0" using p(2) Suc.prems(4) by auto
      moreover have "call \<notin> set (onError_calls h s err0 (context eng'))"
        using Suc.prems(5) by (auto simp: onError_calls_def split: option.splits)
      moreover have "pre @ call # post = pre0 @ call0 # onError_calls h s err0 (context eng')"
        using Suc.prems(3) r p(1) by simp
      ultimately have "pre = pre0 \<and> call = call0 \<and> post = onError_calls h s err0 (context eng')"
        by (rule split_unique[rotated 1])
      with p r Suc.prems(4) show ?thesis by auto
    qed
  qed
qed

section \<open>Every run follows the order of a step\<close>

lemma after_append:
  "after m ph (a @ b) = (case after m ph a of None \<Rightarrow> None | Some p \<Rightarrow> after m p b)"
  by (induction a arbitrary: ph) (auto split: option.splits)

lemma after_snoc:
  "after m ph (tr @ [x]) = (case after m ph tr of None \<Rightarrow> None | Some p \<Rightarrow> observe m p x)"
  by (simp add: after_append split: option.splits)

lemma after_Cons_split:
  "after m ph (pre @ x # post) = Some q \<Longrightarrow>
     \<exists>p p'. after m ph pre = Some p \<and> observe m p x = Some p' \<and> after m p' post = Some q"
  by (auto simp: after_append split: option.splits)

lemma try_block_phase:
  assumes "try_block s h eng = (tr, eng', res)" "states eng s = Some h"
  shows "(\<exists>ph. after (states eng) BeforeExecute tr = Some ph
            \<and> (ph = BeforeExecute \<or> (\<exists>result. ph = Committed s result))
            \<and> (\<forall>result. res = Inr result \<longrightarrow> ph = Committed s result))
    \<and> (\<forall>result. res = Inr result \<longrightarrow> context eng' = FSMStateResult.context result)
    \<and> states eng' = states eng \<and> currentState eng' = currentState eng"
  using assms
  by (auto simp: try_block_def Let_def split: option.splits sum.splits)

lemma catch_block_phase:
  assumes "catch_block s h eng err = (tr, err')"
    and "ph = BeforeExecute \<or> (\<exists>s result. ph = Committed s result)"
  shows "\<exists>ph'. after m ph tr = Some ph' \<and> resting Completed ph'"
  using assms
  by (auto simp: catch_block_def split: option.splits)

lemma loop_head_resting:
  assumes "loop_head eng = (eng', g', res, tr)"
  shows "\<exists>ph'. after (states eng) BeforeExecute tr = Some ph' \<and> resting g' ph' \<and>
     gen_inv eng' g' \<and> states eng' = states eng"
proof (cases "loop_guard eng")
  case False
  with assms show ?thesis
    by (auto simp: loop_head_def loop_guard_def split: option.splits if_splits property.splits)
next
  case True
  then obtain s where s: "currentState eng = Some s" "truthy s"
    "state_read (states eng) s \<noteq> NoProperty"
    by (auto simp: loop_guard_def split: option.splits)
  show ?thesis
  proof (cases "state_read (states eng) s")
    case NoProperty
    with s show ?thesis by simp
  next
    case (InheritedProperty name)
    with assms s show ?thesis by (auto simp: loop_head_def)
  next
    case (OwnProperty h)
    then have h: "states eng s = Some h" by (rule state_read_OwnD)
    obtain tr1 eng1 res1 where tb: "try_block s h eng = (tr1, eng1, res1)"
      by (cases "try_block s h eng") auto
    from try_block_phase[OF tb h] obtain ph where
      ph: "after (states eng) BeforeExecute tr1 = Some ph"
          "ph = BeforeExecute \<or> (\<exists>result. ph = Committed s result)"
          "\<forall>result. res1 = Inr result \<longrightarrow> ph = Committed s result"
      and e1: "\<forall>result. res1 = Inr result \<longrightarrow> context eng1 = FSMStateResult.context result"
         "states eng1 = states eng" "currentState eng1 = currentState eng"
      by blast
    show ?thesis
    proof (cases res1)
      case (Inr result)
      with assms s tb ph e1 h OwnProperty show ?thesis
        by (auto simp: loop_head_def after_append)
    next
      case (Inl err)
      obtain tr2 err' where cb: "catch_block s h eng1 err = (tr2, err')"
        by (cases "catch_block s h eng1 err") auto
      from catch_block_phase[OF cb, of ph "states eng"] ph(2)
      obtain ph' where "after (states eng) ph tr2 = Some ph'" "resting Completed ph'" by blast
      with Inl assms s tb cb ph e1 OwnProperty show ?thesis
        by (auto simp: loop_head_def after_append)
    qed
  qed
qed

lemma gen_next_resting:
  assumes "gen_next eng g = (eng', g', res, tr)" "gen_inv eng g" "resting g ph"
  shows "\<exists>ph'. after (states eng) ph tr = Some ph' \<and> resting g' ph' \<and>
     gen_inv eng' g' \<and> states eng' = states eng"
proof (cases g)
  case SuspendedStart
  with assms loop_head_resting[of eng eng' g' res tr] show ?thesis by simp
next
  case (SuspendedYield s h result)
  with assms have ph: "ph = Emitted s result" and inv: "context eng = FSMStateResult.context result"
    by auto
  show ?thesis
  proof (cases "transition h (event result) (context eng)")
    case (Inl err)
    obtain tr2 err' where cb: "catch_block s h eng err = (tr2, err')"
      by (cases "catch_block s h eng err") auto
    from catch_block_phase[OF cb, of BeforeExecute "states eng"]
    obtain ph' where "after (states eng) BeforeExecute tr2 = Some ph'" "resting Completed ph'"
      by blast
    with Inl cb assms(1) SuspendedYield ph inv show ?thesis
      by (auto simp: resume_def)
  next
    case (Inr ns)
    obtain eng1 g1 res1 tr1 where l: "loop_head (eng\<lparr>currentState := ns\<rparr>) = (eng1, g1, res1, tr1)"
      by (cases "loop_head (eng\<lparr>currentState := ns\<rparr>)") auto
    from loop_head_resting[OF l] Inr l assms(1) SuspendedYield ph inv show ?thesis
      by (auto simp: resume_def)
  qed
next
  case Completed
  with assms show ?thesis by auto
qed

lemma pull_n_Completed: "pull_n n eng Completed = ([], eng, Completed)"
  by (induction n) auto

lemma pull_n_resting:
  assumes "pull_n n eng g = (tr, eng', g')" "gen_inv eng g" "resting g ph"
  shows "\<exists>ph'. after (states eng) ph tr = Some ph' \<and> resting g' ph' \<and>
     gen_inv eng' g' \<and> states eng' = states eng"
  using assms
proof (induction n arbitrary: eng g ph tr)
  case 0
  then show ?case by simp
next
  case (Suc n)
  obtain eng1 g1 res tr1 where gn: "gen_next eng g = (eng1, g1, res, tr1)"
    by (cases "gen_next eng g") auto
  obtain tr2 where p: "pull_n n eng1 g1 = (tr2, eng', g')" and tr: "tr = tr1 @ tr2"
    using Suc.prems(1) gn by (auto split: prod.splits)
  from gen_next_resting[OF gn Suc.prems(2,3)] obtain ph1 where
    a: "after (states eng) ph tr1 = Some ph1" and r: "resting g1 ph1"
    and i: "gen_inv eng1 g1" and s: "states eng1 = states eng"
    by blast
  from Suc.IH[OF p i r] s obtain ph' where
    "after (states eng) ph1 tr2 = Some ph'" "resting g' ph'" "gen_inv eng' g'"
    "states eng' = states eng"
    by auto
  with a tr show ?case by (simp add: after_append)
qed

text \<open>A run that ends within \<open>n\<close> pulls is what \<open>n\<close> pulls give.\<close>

lemma for_await_pull_n:
  "for_await n eng g = Some r \<Longrightarrow> pull_n n eng g = (trace r, engine r, Completed)"
proof (induction n arbitrary: eng g r)
  case 0
  then show ?case by simp
next
  case (Suc n)
  obtain eng' g' res tr where gn: "gen_next eng g = (eng', g', res, tr)"
    by (cases "gen_next eng g") auto
  show ?case
  proof (cases res)
    case (Yielded ev)
    with Suc.prems gn obtain r' where
      r': "for_await n eng' g' = Some r'" and r: "r = r'\<lparr>trace := tr @ trace r'\<rparr>"
      by auto
    from Suc.IH[OF r'] gn r show ?thesis by simp
  next
    case Returned
    with gen_next_done[OF gn] have "g' = Completed" by simp
    with Suc.prems gn Returned show ?thesis by (auto simp: pull_n_Completed)
  next
    case (Thrown err)
    with gen_next_done[OF gn] have "g' = Completed" by simp
    with Suc.prems gn Thrown show ?thesis by (auto simp: pull_n_Completed)
  qed
qed

lemma run_phase:
  assumes "for_await n eng SuspendedStart = Some r"
  shows "\<exists>q. after (states eng) BeforeExecute (trace r) = Some q \<and> resting Completed q"
  using pull_n_resting[OF for_await_pull_n[OF assms], of BeforeExecute] by auto

subsection \<open>What the monitor accepts\<close>

lemma observe_Emitted:
  "observe m p x = Some (Emitted s result) \<Longrightarrow> p = Committed s result \<and> x = Yield (event result)"
  by (cases "(m, p, x)" rule: observe.cases) (auto split: option.splits sum.splits if_splits)

lemma observe_Committed:
  "observe m p x = Some (Committed s result) \<Longrightarrow>
     (p = AwaitCommit s result \<and> x = Commit (FSMStateResult.context result))
     \<or> (p = Committed s result \<and> x = OnExit s (event result) (FSMStateResult.context result))"
  by (cases "(m, p, x)" rule: observe.cases) (auto split: option.splits sum.splits if_splits)

lemma observe_AwaitCommit:
  "observe m p x = Some (AwaitCommit s result) \<Longrightarrow>
     \<exists>h c. p = BeforeExecute \<and> x = Execute s c \<and> m s = Some h \<and> execute h c = Inr result"
  by (cases "(m, p, x)" rule: observe.cases) (auto split: option.splits sum.splits if_splits)

lemma observe_Transition:
  "observe m p (Transition s ev c) = Some p' \<Longrightarrow>
     \<exists>result. p = Emitted s result \<and> ev = event result \<and> c = FSMStateResult.context result"
  by (cases p) (auto split: if_splits)

lemma observe_OnExit:
  "observe m p (OnExit s ev c) = Some p' \<Longrightarrow>
     \<exists>result. p = Committed s result \<and> ev = event result \<and> c = FSMStateResult.context result"
  by (cases p) (auto split: if_splits)

lemma observe_Yield:
  "observe m p (Yield ev) = Some p' \<Longrightarrow>
     \<exists>s result. p = Committed s result \<and> p' = Emitted s result \<and> ev = event result"
  by (cases p) (auto split: if_splits)

lemma observe_in_Emitted:
  "observe m (Emitted s result) x = Some p' \<Longrightarrow>
     x = Transition s (event result) (FSMStateResult.context result)"
  by (cases x) (auto split: if_splits)

lemma await_has_execute:
  "after m BeforeExecute tr = Some (AwaitCommit s result) \<Longrightarrow>
     \<exists>h c. m s = Some h \<and> execute h c = Inr result \<and> Execute s c \<in> set tr"
proof (induction tr rule: rev_induct)
  case Nil
  then show ?case by simp
next
  case (snoc x tr')
  then obtain p where "after m BeforeExecute tr' = Some p"
    "observe m p x = Some (AwaitCommit s result)"
    by (auto simp: after_snoc split: option.splits)
  from observe_AwaitCommit[OF this(2)] show ?case by auto
qed

lemma committed_has_commit:
  "after m BeforeExecute tr = Some (Committed s result) \<Longrightarrow>
     Commit (FSMStateResult.context result) \<in> set tr \<and>
     (\<exists>h c. m s = Some h \<and> execute h c = Inr result \<and> Execute s c \<in> set tr)"
proof (induction tr rule: rev_induct)
  case Nil
  then show ?case by simp
next
  case (snoc x tr)
  then obtain p where p: "after m BeforeExecute tr = Some p" "observe m p x = Some (Committed s result)"
    by (auto simp: after_snoc split: option.splits)
  from observe_Committed[OF p(2)] show ?case
  proof
    assume a: "p = AwaitCommit s result \<and> x = Commit (FSMStateResult.context result)"
    with await_has_execute[of m tr s result] p(1) show ?thesis by auto
  next
    assume "p = Committed s result \<and> x = OnExit s (event result) (FSMStateResult.context result)"
    with snoc.IH p(1) show ?thesis by auto
  qed
qed

lemma emitted_after_yield:
  assumes "after m BeforeExecute tr = Some (Emitted s result)"
  shows "tr \<noteq> [] \<and> last tr = Yield (event result) \<and> Commit (FSMStateResult.context result) \<in> set tr
     \<and> (\<exists>h c. m s = Some h \<and> execute h c = Inr result \<and> Execute s c \<in> set tr)"
proof (cases tr rule: rev_cases)
  case Nil
  with assms show ?thesis by simp
next
  case (snoc tr' x)
  with assms obtain p where p: "after m BeforeExecute tr' = Some p" "observe m p x = Some (Emitted s result)"
    by (auto simp: after_snoc split: option.splits)
  from observe_Emitted[OF p(2)] p(1) committed_has_commit[of m tr' s result] snoc
  show ?thesis by auto
qed

lemma accepted_Transition:
  assumes "after m BeforeExecute (pre @ Transition s ev c # post) = Some q"
  shows "pre \<noteq> [] \<and> last pre = Yield ev \<and> Commit c \<in> set pre \<and>
     (\<exists>h c0. m s = Some h \<and> execute h c0 = Inr \<lparr>event = ev, context = c\<rparr> \<and>
        Execute s c0 \<in> set pre)"
proof -
  from after_Cons_split[OF assms] obtain p p' where
    p: "after m BeforeExecute pre = Some p" "observe m p (Transition s ev c) = Some p'"
    by blast
  from observe_Transition[OF p(2)] obtain result where
    "p = Emitted s result" "ev = event result" "c = FSMStateResult.context result" by blast
  with emitted_after_yield[of m pre s result] p(1) show ?thesis
    by (cases result) auto
qed

lemma accepted_OnExit:
  assumes "after m BeforeExecute (pre @ OnExit s ev c # post) = Some q"
  shows "Commit c \<in> set pre \<and>
     (\<exists>h c0. m s = Some h \<and> execute h c0 = Inr \<lparr>event = ev, context = c\<rparr> \<and>
        Execute s c0 \<in> set pre)"
proof -
  from after_Cons_split[OF assms] obtain p p' where
    p: "after m BeforeExecute pre = Some p" "observe m p (OnExit s ev c) = Some p'"
    by blast
  from observe_OnExit[OF p(2)] obtain result where
    "p = Committed s result" "ev = event result" "c = FSMStateResult.context result" by blast
  with committed_has_commit[of m pre s result] p(1) show ?thesis
    by (cases result) auto
qed

lemma accepted_after_Yield:
  assumes "after m BeforeExecute (pre @ Yield ev # x # post) = Some q"
  shows "\<exists>s c. x = Transition s ev c"
proof -
  from after_Cons_split[OF assms] obtain p p' where
    p: "observe m p (Yield ev) = Some p'" "after m p' (x # post) = Some q"
    by blast
  from observe_Yield[OF p(1)] obtain s result where
    e: "p' = Emitted s result" "ev = event result" by blast
  from p(2) obtain p'' where "observe m p' x = Some p''"
    by (auto split: option.splits)
  with e observe_in_Emitted[of m s result x p''] show ?thesis by auto
qed

lemma after_Halted: "after m Halted tr = Some p \<Longrightarrow> tr = [] \<and> p = Halted"
  by (cases tr) auto

lemma observe_OnError: "is_OnError x \<Longrightarrow> observe m ph x = Some p \<Longrightarrow> p = Halted"
  by (cases "(m, ph, x)" rule: observe.cases) auto

lemma observe_Halted: "observe m Halted x = None"
  by (cases x) auto

lemma no_OnError_before:
  "after m ph tr = Some p \<Longrightarrow> p \<noteq> Halted \<Longrightarrow> filter is_OnError tr = []"
proof (induction tr arbitrary: ph)
  case Nil
  then show ?case by simp
next
  case (Cons x tr)
  then obtain q where q: "observe m ph x = Some q" "after m q tr = Some p"
    by (auto split: option.splits)
  have "\<not> is_OnError x"
  proof
    assume "is_OnError x"
    from observe_OnError[OF this q(1)] q(2) after_Halted[of m tr p] Cons.prems(2)
    show False by simp
  qed
  with Cons.IH[OF q(2) Cons.prems(2)] show ?case by simp
qed

lemma accepted_no_OnError_before:
  assumes "after m BeforeExecute (pre @ call # post) = Some q"
  shows "filter is_OnError pre = []"
proof -
  from after_Cons_split[OF assms] obtain p p' where
    p: "after m BeforeExecute pre = Some p" "observe m p call = Some p'"
    by blast
  from p(2) have "p \<noteq> Halted" by (auto simp: observe_Halted)
  from no_OnError_before[OF p(1) this] show ?thesis .
qed

subsection \<open>The same of a run that ends\<close>

lemma transition_after_yield:
  assumes "for_await n eng SuspendedStart = Some r" "trace r = pre @ Transition s ev c # post"
  shows "pre \<noteq> [] \<and> last pre = Yield ev \<and> Commit c \<in> set pre \<and>
     (\<exists>h c0. states eng s = Some h \<and> execute h c0 = Inr \<lparr>event = ev, context = c\<rparr> \<and>
        Execute s c0 \<in> set pre)"
proof -
  from run_phase[OF assms(1)] assms(2) obtain q where
    "after (states eng) BeforeExecute (pre @ Transition s ev c # post) = Some q" by auto
  from accepted_Transition[OF this] show ?thesis .
qed

lemma no_OnError_before_call:
  assumes "for_await n eng SuspendedStart = Some r" "trace r = pre @ call # post"
  shows "filter is_OnError pre = []"
proof -
  from run_phase[OF assms(1)] assms(2) obtain q where
    "after (states eng) BeforeExecute (pre @ call # post) = Some q" by auto
  from accepted_no_OnError_before[OF this] show ?thesis .
qed

section \<open>Runs that end\<close>

lemma loop_head_stop:
  "\<not> loop_guard eng \<Longrightarrow> loop_head eng = (eng, Completed, Returned, [])"
  by (auto simp: loop_head_def loop_guard_def split: option.splits)

lemma loop_head_inherited:
  "currentState eng = Some s \<Longrightarrow> truthy s \<Longrightarrow>
   state_read (states eng) s = InheritedProperty name \<Longrightarrow>
     loop_head eng =
       (eng, Completed, Thrown (TypeError ''stateHandler.execute is not a function''), [])"
  by (simp add: loop_head_def)

lemma loop_head_step:
  assumes "never_fail (states eng)" "currentState eng = Some s" "truthy s" "states eng s = Some h"
  shows "\<exists>result tr ns. execute h (context eng) = Inr result
     \<and> loop_head eng = (eng\<lparr>context := FSMStateResult.context result\<rparr>, SuspendedYield s h result,
           Yielded (event result), tr)
     \<and> transition h (event result) (FSMStateResult.context result) = Inr ns"
proof -
  from assms obtain result where r: "execute h (context eng) = Inr result"
    unfolding never_fail_def by blast
  from assms obtain ns where
    n: "transition h (event result) (FSMStateResult.context result) = Inr ns"
    unfolding never_fail_def by blast
  have en: "\<And>f. onEnter h = Some f \<Longrightarrow> f (context eng) = Inr ()"
    using assms unfolding never_fail_def by blast
  have ex: "\<And>f. onExit h = Some f \<Longrightarrow>
      f (event result) (FSMStateResult.context result) = Inr ()"
    using assms unfolding never_fail_def by blast
  show ?thesis using r n assms(2,3) state_read_own[of "states eng" s h] assms(4)
    by (auto simp: loop_head_def try_block_def Let_def en ex split: option.splits)
qed

lemma for_await_resume:
  assumes "transition h (event result) (context eng) = Inr ns"
  shows "for_await (Suc k) eng (SuspendedYield s h result) =
     map_option (\<lambda>r. r\<lparr>trace := Transition s (event result) (context eng) # trace r\<rparr>)
       (for_await (Suc k) (eng\<lparr>currentState := ns\<rparr>) SuspendedStart)"
proof -
  obtain eng1 g1 res1 tr1 where l: "loop_head (eng\<lparr>currentState := ns\<rparr>) = (eng1, g1, res1, tr1)"
    by (cases "loop_head (eng\<lparr>currentState := ns\<rparr>)") auto
  show ?thesis using assms l
    by (cases res1) (auto simp: resume_def option.map_comp comp_def intro!: arg_cong[where f="\<lambda>f. map_option f _"])
qed

text \<open>
  Runs end when no callback fails, the successor relation is well-founded, and
  neither the current state nor a state that a transition can name reads as a
  member of \<open>Object.prototype\<close>.
\<close>

lemma terminates_from:
  assumes wf: "wf (successor m)" and nf: "never_fail m"
    and tg: "\<And>s' s name. (s', s) \<in> successor m \<Longrightarrow> state_read m s' \<noteq> InheritedProperty name"
  shows "states eng = m \<Longrightarrow>
     (\<And>s name. currentState eng = Some s \<Longrightarrow> state_read m s \<noteq> InheritedProperty name) \<Longrightarrow>
     \<exists>n r. for_await n eng SuspendedStart = Some r \<and> outcome r = Finished"
proof (cases "currentState eng")
  case None
  then have "\<not> loop_guard eng" by (simp add: loop_guard_def)
  then have "for_await (Suc 0) eng SuspendedStart = Some \<lparr>trace = [], outcome = Finished, engine = eng\<rparr>"
    by (simp add: loop_head_stop)
  then show ?thesis by (metis run_result.select_convs(2))
next
  case (Some s0)
  assume st: "states eng = m"
    and ini: "\<And>s name. currentState eng = Some s \<Longrightarrow> state_read m s \<noteq> InheritedProperty name"
  have "\<forall>eng. states eng = m \<and> currentState eng = Some s0 \<and>
       (\<forall>name. state_read m s0 \<noteq> InheritedProperty name) \<longrightarrow>
     (\<exists>n r. for_await n eng SuspendedStart = Some r \<and> outcome r = Finished)"
    using wf
  proof (induction s0 rule: wf_induct_rule)
    case (less s)
    show ?case
    proof (intro allI impI)
      fix eng :: "('a, 'b) FSM"
      assume a: "states eng = m \<and> currentState eng = Some s \<and>
         (\<forall>name. state_read m s \<noteq> InheritedProperty name)"
      show "\<exists>n r. for_await n eng SuspendedStart = Some r \<and> outcome r = Finished"
      proof (cases "loop_guard eng")
        case False
        then have "for_await (Suc 0) eng SuspendedStart = Some \<lparr>trace = [], outcome = Finished, engine = eng\<rparr>"
          by (simp add: loop_head_stop)
        then show ?thesis by (metis run_result.select_convs(2))
      next
        case True
        with a obtain h where h: "truthy s" "states eng s = Some h"
          by (cases "state_read m s") (auto simp: loop_guard_def dest: state_read_OwnD)
        from loop_head_step[of eng s h] nf a h obtain result tr ns where
          ex: "execute h (context eng) = Inr result"
          and lh: "loop_head eng = (eng\<lparr>context := FSMStateResult.context result\<rparr>,
                 SuspendedYield s h result, Yielded (event result), tr)"
          and tn: "transition h (event result) (FSMStateResult.context result) = Inr ns"
          by auto
        let ?e1 = "eng\<lparr>context := FSMStateResult.context result\<rparr>"
        let ?e2 = "?e1\<lparr>currentState := ns\<rparr>"
        have "\<exists>n r. for_await n ?e2 SuspendedStart = Some r \<and> outcome r = Finished"
        proof (cases ns)
          case None
          then have "\<not> loop_guard ?e2" by (simp add: loop_guard_def)
          then have "for_await (Suc 0) ?e2 SuspendedStart
              = Some \<lparr>trace = [], outcome = Finished, engine = ?e2\<rparr>"
            by (simp add: loop_head_stop)
          then show ?thesis by (metis run_result.select_convs(2))
        next
          case (Some s')
          with tn ex a h have su: "(s', s) \<in> successor m"
            by (auto simp: successor_def)
          from less.IH[OF su] tg[OF su] a Some show ?thesis by simp
        qed
        then obtain n r where r: "for_await n ?e2 SuspendedStart = Some r" "outcome r = Finished"
          by blast
        then obtain k where k: "n = Suc k" by (cases n) auto
        have tn': "transition h (event result) (context ?e1) = Inr ns" using tn by simp
        from for_await_resume[OF tn', of k s] r k
        obtain r1 where r1: "for_await (Suc k) ?e1 (SuspendedYield s h result) = Some r1"
          "outcome r1 = Finished" by auto
        with lh have "\<exists>r2. for_await (Suc (Suc k)) eng SuspendedStart = Some r2 \<and> outcome r2 = Finished"
          by simp
        then show ?thesis by blast
      qed
    qed
  qed
  with st ini Some show ?thesis by simp
qed

lemma for_await_mono:
  "for_await n eng g = Some r \<Longrightarrow> for_await (n + k) eng g = Some r"
proof (induction n arbitrary: eng g r)
  case 0
  then show ?case by simp
next
  case (Suc n)
  obtain eng' g' res tr where gn: "gen_next eng g = (eng', g', res, tr)"
    by (cases "gen_next eng g") auto
  show ?case
  proof (cases res)
    case (Yielded ev)
    with Suc.prems gn obtain r' where
      r': "for_await n eng' g' = Some r'" and r: "r = r'\<lparr>trace := tr @ trace r'\<rparr>"
      by auto
    from Suc.IH[OF r'] gn Yielded r show ?thesis by simp
  next
    case Returned
    with Suc.prems gn show ?thesis by simp
  next
    case (Thrown err)
    with Suc.prems gn show ?thesis by simp
  qed
qed

lemma run_terminates_unless_inherited:
  assumes "never_fail (states eng)" and "wf (successor (states eng))"
    and "\<And>s' s name. (s', s) \<in> successor (states eng) \<Longrightarrow>
           state_read (states eng) s' \<noteq> InheritedProperty name"
    and "\<And>s name. currentState eng = Some s \<Longrightarrow>
           state_read (states eng) s \<noteq> InheritedProperty name"
  shows "\<exists>n r. (\<forall>k. for_await (n + k) eng run = Some r) \<and> outcome r = Finished"
proof -
  have "\<exists>n r. for_await n eng SuspendedStart = Some r \<and> outcome r = Finished"
  proof (rule terminates_from[where m = "states eng" and eng = eng])
    show "wf (successor (states eng))" by (rule assms(2))
    show "never_fail (states eng)" by (rule assms(1))
    show "\<And>s' s name. (s', s) \<in> successor (states eng) \<Longrightarrow>
        state_read (states eng) s' \<noteq> InheritedProperty name"
      by (rule assms(3))
    show "states eng = states eng" by simp
    show "\<And>s name. currentState eng = Some s \<Longrightarrow>
        state_read (states eng) s \<noteq> InheritedProperty name"
      by (rule assms(4))
  qed
  then obtain n r where r: "for_await n eng SuspendedStart = Some r" "outcome r = Finished"
    by blast
  from for_await_mono[OF r(1)] r(2) show ?thesis
    by (auto simp: run_def)
qed

lemma finished_not_guard:
  "for_await n eng g = Some r \<Longrightarrow> outcome r = Finished \<Longrightarrow> g \<noteq> Completed \<Longrightarrow>
     \<not> loop_guard (engine r)"
proof (induction n arbitrary: eng g r)
  case 0
  then show ?case by simp
next
  case (Suc n)
  obtain eng' g' res tr where gn: "gen_next eng g = (eng', g', res, tr)"
    by (cases "gen_next eng g") auto
  show ?case
  proof (cases res)
    case (Yielded ev)
    with Suc.prems gn obtain r' where
      r': "for_await n eng' g' = Some r'" and r: "r = r'\<lparr>trace := tr @ trace r'\<rparr>"
      by auto
    have "g' \<noteq> Completed"
      using gn Yielded Suc.prems(3)
      by (cases g) (auto simp: loop_head_def resume_def catch_block_def
          split: option.splits if_splits prod.splits sum.splits property.splits)
    from Suc.IH[OF r' _ this] r Suc.prems(2) show ?thesis by simp
  next
    case Returned
    with Suc.prems gn have e: "engine r = eng'" by auto
    show ?thesis
    proof (cases g)
      case SuspendedStart
      with gn Returned loop_head_return[of eng eng' g' tr] e show ?thesis by simp
    next
      case (SuspendedYield s h result)
      with gn Returned obtain ns tr0 where
        "loop_head (eng\<lparr>currentState := ns\<rparr>) = (eng', g', Returned, tr0)"
        by (auto simp: resume_def split: sum.splits prod.splits)
      from loop_head_return[OF this] e show ?thesis by simp
    next
      case Completed
      with Suc.prems show ?thesis by simp
    qed
  next
    case (Thrown err)
    with Suc.prems gn show ?thesis by auto
  qed
qed

section \<open>The runs of the machines\<close>

lemmas run_simps =
  constructor_def run_def loop_head_def resume_def try_block_def catch_block_def
  createState_def no_options_def transitionTo_def finalTransition_def getCurrentState_def
  state_read_def object_prototype_names_def

lemma scenario1_run:
  assumes "exec3 (g (f c)) = Inr result"
  shows "for_await (Suc (Suc (Suc (Suc n)))) (constructor c (StrId ''idle'') (scenario1 f g exec3)) run =
    Some \<lparr>trace =
       [Execute (StrId ''idle'') c, Commit (f c), Yield \<lparr>type = ''go''\<rparr>,
        Transition (StrId ''idle'') \<lparr>type = ''go''\<rparr> (f c),
        Execute (StrId ''loading'') (f c), Commit (g (f c)), Yield \<lparr>type = ''done''\<rparr>,
        Transition (StrId ''loading'') \<lparr>type = ''done''\<rparr> (g (f c)),
        Execute (StrId ''success'') (g (f c)), Commit (FSMStateResult.context result),
        Yield (event result),
        Transition (StrId ''success'') (event result) (FSMStateResult.context result)],
      outcome = Finished,
      engine = \<lparr>context = FSMStateResult.context result, currentState = None,
                states = scenario1 f g exec3\<rparr>\<rparr>"
  using assms by (simp add: scenario1_def run_simps)

lemma scenario1_run_fails:
  assumes "exec3 (g (f c)) = Inl err"
  shows "for_await (Suc (Suc (Suc n))) (constructor c (StrId ''idle'') (scenario1 f g exec3)) run =
    Some \<lparr>trace =
       [Execute (StrId ''idle'') c, Commit (f c), Yield \<lparr>type = ''go''\<rparr>,
        Transition (StrId ''idle'') \<lparr>type = ''go''\<rparr> (f c),
        Execute (StrId ''loading'') (f c), Commit (g (f c)), Yield \<lparr>type = ''done''\<rparr>,
        Transition (StrId ''loading'') \<lparr>type = ''done''\<rparr> (g (f c)),
        Execute (StrId ''success'') (g (f c))],
      outcome = Failed err,
      engine = \<lparr>context = g (f c), currentState = Some (StrId ''success''),
                states = scenario1 f g exec3\<rparr>\<rparr>"
  using assms by (simp add: scenario1_def run_simps)

lemma exit_fails_run:
  "for_await (Suc n) (constructor 0 (StrId ''idle'') [StrId ''idle'' \<mapsto> exit_fails]) run =
     Some \<lparr>trace = [Execute (StrId ''idle'') 0, Commit (Suc 0),
                    OnExit (StrId ''idle'') \<lparr>type = ''go''\<rparr> (Suc 0),
                    OnError (StrId ''idle'') (Error ''exit'') (Suc 0)],
           outcome = Failed (Error ''exit''),
           engine = \<lparr>context = Suc 0, currentState = Some (StrId ''idle''),
                     states = [StrId ''idle'' \<mapsto> exit_fails]\<rparr>\<rparr>"
  by (simp add: exit_fails_def run_simps)

lemma transition_fails_run:
  "for_await (Suc (Suc n))
     (constructor 0 (StrId ''idle'') [StrId ''idle'' \<mapsto> transition_fails]) run =
     Some \<lparr>trace = [Execute (StrId ''idle'') 0, Commit (Suc 0), Yield \<lparr>type = ''go''\<rparr>,
                    Transition (StrId ''idle'') \<lparr>type = ''go''\<rparr> (Suc 0),
                    OnError (StrId ''idle'') (Error ''transition'') (Suc 0)],
           outcome = Failed (Error ''transition''),
           engine = \<lparr>context = Suc 0, currentState = Some (StrId ''idle''),
                     states = [StrId ''idle'' \<mapsto> transition_fails]\<rparr>\<rparr>"
  by (simp add: transition_fails_def run_simps)

text \<open>
  When \<open>onError\<close> itself fails, its failure is the one that leaves the \<open>catch\<close>
  block; the theorems on failures below are about an \<open>onError\<close> that is absent or
  returns.
\<close>

lemma catch_block_onError_fails:
  "onError h = Some f \<Longrightarrow> f err (context eng) = Inl err' \<Longrightarrow>
     catch_block s h eng err = ([OnError s err (context eng)], err')"
  by (simp add: catch_block_def)

text \<open>The machine \<open>blinker\<close>: two pulls, and no end however many pulls.\<close>

lemma blinker_two_pulls:
  "pull_n 2 (constructor 0 (StrId ''off'') blinker) run =
     ([Execute (StrId ''off'') 0, Commit 1, OnExit (StrId ''off'') \<lparr>type = ''lit''\<rparr> 1,
       Yield \<lparr>type = ''lit''\<rparr>,
       Transition (StrId ''off'') \<lparr>type = ''lit''\<rparr> 1,
       Execute (StrId ''on'') 1, Commit 2, OnExit (StrId ''on'') \<lparr>type = ''dark''\<rparr> 2,
       Yield \<lparr>type = ''dark''\<rparr>],
      \<lparr>context = 2, currentState = Some (StrId ''on''), states = blinker\<rparr>,
      SuspendedYield (StrId ''on'') (blink ''dark'' ''off'')
        \<lparr>event = \<lparr>type = ''dark''\<rparr>, context = 2\<rparr>)"
  by (simp add: eval_nat_numeral blinker_def blink_def run_simps)

lemma blinker_pull:
  assumes "states eng = blinker"
    and "g = SuspendedStart \<and> currentState eng \<in> {Some (StrId ''off''), Some (StrId ''on'')} \<or>
         (\<exists>result. g = SuspendedYield (StrId ''off'') (blink ''lit'' ''on'') result) \<or>
         (\<exists>result. g = SuspendedYield (StrId ''on'') (blink ''dark'' ''off'') result)"
  shows "\<exists>eng' g' ev tr. gen_next eng g = (eng', g', Yielded ev, tr) \<and> states eng' = blinker \<and>
     ((\<exists>result. g' = SuspendedYield (StrId ''off'') (blink ''lit'' ''on'') result) \<or>
      (\<exists>result. g' = SuspendedYield (StrId ''on'') (blink ''dark'' ''off'') result))"
  using assms
  by (auto simp: blinker_def blink_def loop_head_def resume_def try_block_def transitionTo_def
      state_read_def)

lemma blinker_never_ends:
  assumes "states eng = blinker"
    and "g = SuspendedStart \<and> currentState eng \<in> {Some (StrId ''off''), Some (StrId ''on'')} \<or>
         (\<exists>result. g = SuspendedYield (StrId ''off'') (blink ''lit'' ''on'') result) \<or>
         (\<exists>result. g = SuspendedYield (StrId ''on'') (blink ''dark'' ''off'') result)"
  shows "for_await n eng g = None"
  using assms
proof (induction n arbitrary: eng g)
  case 0
  then show ?case by simp
next
  case (Suc n)
  from blinker_pull[OF Suc.prems] obtain eng' g' ev tr where
    gn: "gen_next eng g = (eng', g', Yielded ev, tr)" and st: "states eng' = blinker"
    and g': "(\<exists>result. g' = SuspendedYield (StrId ''off'') (blink ''lit'' ''on'') result) \<or>
      (\<exists>result. g' = SuspendedYield (StrId ''on'') (blink ''dark'' ''off'') result)"
    by blast
  from g' have "g' = SuspendedStart \<and> currentState eng' \<in> {Some (StrId ''off''), Some (StrId ''on'')} \<or>
         (\<exists>result. g' = SuspendedYield (StrId ''off'') (blink ''lit'' ''on'') result) \<or>
         (\<exists>result. g' = SuspendedYield (StrId ''on'') (blink ''dark'' ''off'') result)"
    by blast
  from Suc.IH[OF st this] gn show ?case by simp
qed

section \<open>The helpers and the synchronous operations\<close>

text \<open>
  What \<open>eventBasedTransition\<close> does for own keys with a true state, and for tags
  that neither the map nor \<open>Object.prototype\<close> has.
\<close>

lemma eventBasedTransition_own_truthy:
  "eventMap (type ev) = Some s \<Longrightarrow> truthy s \<Longrightarrow>
     eventBasedTransition eventMap ev c = Inr (Some s)"
  by (simp add: eventBasedTransition_def property_read_def)

lemma eventBasedTransition_absent:
  "eventMap (type ev) = None \<Longrightarrow> type ev \<notin> set object_prototype_names \<Longrightarrow>
     eventBasedTransition eventMap ev c = Inr None"
  by (simp add: eventBasedTransition_def property_read_def)

text \<open>
  C9: the transition made by \<open>eventBasedTransition\<close> is to return the state that
  the map gives the event's tag whenever the tag is a key, and to terminate
  exactly when the tag is missing. The code does not: with the map \<open>{go: 0}\<close> and
  an event tagged \<open>go\<close> the tag is a key, and the transition terminates
  (\<open>0 || null\<close>); with the map \<open>{open: 'opening'}\<close> and an event tagged
  \<open>constructor\<close> the tag is missing, and the transition returns the member
  \<open>constructor\<close> of \<open>Object.prototype\<close> instead of terminating.
\<close>

theorem eventBasedTransition_falsy_or_inherited:
  "[''go'' \<mapsto> NumId 0] (type \<lparr>type = ''go''\<rparr>) = Some (NumId 0) \<and>
   eventBasedTransition [''go'' \<mapsto> NumId 0] \<lparr>type = ''go''\<rparr> () = Inr None \<and>
   [''open'' \<mapsto> StrId ''opening''] (type \<lparr>type = ''constructor''\<rparr>) = None \<and>
   eventBasedTransition [''open'' \<mapsto> StrId ''opening''] \<lparr>type = ''constructor''\<rparr> ()
     = Inr (Some (PrototypeMember ''constructor''))"
  by (simp add: eventBasedTransition_def property_read_def object_prototype_names_def)

text \<open>
  C7, as the specification states it: \<open>reset\<close> replaces exactly the fields for which
  an argument is given.

  This fails for the argument \<open>null\<close>, which a context type may admit:
  \<open>newContext ?? this.context\<close> keeps the old context. Here the context is 5,
  \<open>reset(null)\<close> is called, and the context is not \<open>null\<close> afterwards but still 5.
\<close>

theorem reset_null_context_ignored:
  "context (reset Null None
      \<lparr>context = Value (5 :: nat), currentState = Some (StrId ''idle''), states = Map.empty\<rparr>)
     \<noteq> Null \<and>
   context (reset Null None
      \<lparr>context = Value (5 :: nat), currentState = Some (StrId ''idle''), states = Map.empty\<rparr>)
     = Value 5"
  by (simp add: reset_def)

text \<open>
  C7, amended: \<open>reset\<close> replaces the context by \<open>newContext\<close> when that argument is
  given and is not \<open>null\<close>, and the current state by \<open>newState\<close> when that argument
  is given; a field whose argument is omitted (or, for the context, is \<open>null\<close>)
  keeps its value. The state map is unchanged, and no hook takes part: the two
  fields come out the same whatever the state map holds.
\<close>

theorem reset_replaces_given_fields:
  "context (reset newContext newState eng) =
     (case newContext of Undefined \<Rightarrow> context eng | Null \<Rightarrow> context eng | Value v \<Rightarrow> Value v) \<and>
   currentState (reset newContext newState eng) =
     (case newState of None \<Rightarrow> currentState eng | Some s \<Rightarrow> Some s) \<and>
   states (reset newContext newState eng) = states eng \<and>
   reset newContext newState (eng\<lparr>states := m\<rparr>) = (reset newContext newState eng)\<lparr>states := m\<rparr>"
  by (cases newContext; cases newState) (simp_all add: reset_def)

text \<open>
  C8: between two pulls, \<open>updateContext\<close> with the identity function changes nothing
  of what follows. Whatever the engine and wherever the generator stands, the next
  pull and the rest of the run (every event, every call, the outcome and the final
  fields) are the same with and without the call.
\<close>

theorem updateContext_identity_invisible:
  "gen_next (updateContext (\<lambda>c. c) eng) g = gen_next eng g \<and>
   for_await n (updateContext (\<lambda>c. c) eng) g = for_await n eng g \<and>
   map_option (emitted \<circ> trace) (for_await n (updateContext (\<lambda>c. c) eng) g)
     = map_option (emitted \<circ> trace) (for_await n eng g)"
  by (simp add: updateContext_def)

section \<open>The claims on runs\<close>

text \<open>
  A run whose current state has no entry in the state map, own or inherited,
  returns at the first pull: no event, no call, no failure.
\<close>

lemma absent_state_ends_at_once:
  "state_read stateMap initialState = NoProperty \<Longrightarrow>
     for_await (Suc n) (constructor initialContext initialState stateMap) run =
       Some \<lparr>trace = [], outcome = Finished,
             engine = constructor initialContext initialState stateMap\<rparr>"
  by (simp add: constructor_def run_def loop_head_def)

text \<open>
  C6: construction checks nothing, and a run whose initial state is absent from
  the state map is to end at once with no event and no failure. The code does
  not, for an initial state that names a member of \<open>Object.prototype\<close>: the map
  with the one state \<open>idle\<close> has no entry \<open>toString\<close>, yet with the initial state
  \<open>toString\<close> the read \<open>states['toString']\<close> is a function, the loop is entered, and
  the first pull throws a \<open>TypeError\<close> (no event, no call of a handler).
\<close>

theorem inherited_initial_state_throws:
  "fetch_only (StrId ''toString'') = None \<and>
   constructor () (StrId ''toString'') fetch_only =
     \<lparr>context = (), currentState = Some (StrId ''toString''), states = fetch_only\<rparr> \<and>
   for_await 1 (constructor () (StrId ''toString'') fetch_only) run =
     Some \<lparr>trace = [],
           outcome = Failed (TypeError ''stateHandler.execute is not a function''),
           engine = \<lparr>context = (), currentState = Some (StrId ''toString''),
                     states = fetch_only\<rparr>\<rparr>"
proof -
  have "fetch_only (StrId ''toString'') = None" by (simp add: fetch_only_def)
  then show ?thesis
    by (simp add: run_simps)
qed

text \<open>
  C3, as the specification states it: \<open>getCurrentState\<close> returns \<open>null\<close> if and only
  if the machine has terminated, a stop at an unmapped state included.

  This fails: the loop leaves the field as the last transition set it. The machine
  with the one state \<open>idle\<close>, whose transition goes to the unmapped \<open>loading\<close>, runs
  to its end in two pulls; the loop's condition is then false, and
  \<open>getCurrentState\<close> returns \<open>loading\<close>.
\<close>

theorem unmapped_state_terminated_not_null:
  "for_await 2 (constructor () (StrId ''idle'') fetch_only) run =
     Some \<lparr>trace = [Execute (StrId ''idle'') (), Commit (), Yield \<lparr>type = ''fetch''\<rparr>,
                    Transition (StrId ''idle'') \<lparr>type = ''fetch''\<rparr> ()],
           outcome = Finished,
           engine = \<lparr>context = (), currentState = Some (StrId ''loading''),
                     states = fetch_only\<rparr>\<rparr> \<and>
   \<not> loop_guard \<lparr>context = (), currentState = Some (StrId ''loading''), states = fetch_only\<rparr> \<and>
   getCurrentState \<lparr>context = (), currentState = Some (StrId ''loading''), states = fetch_only\<rparr>
     = Some (StrId ''loading'') \<and>
   getCurrentState \<lparr>context = (), currentState = Some (StrId ''loading''), states = fetch_only\<rparr>
     \<noteq> None"
proof -
  have "fetch_only (StrId ''loading'') = None" by (simp add: fetch_only_def)
  moreover have "fetch_only (StrId ''idle'') =
      Some (createState (\<lambda>c. Inr \<lparr>event = \<lparr>type = ''fetch''\<rparr>, context = c\<rparr>)
              (transitionTo (StrId ''loading'')) no_options)"
    by (simp add: fetch_only_def)
  ultimately show ?thesis
    by (simp add: eval_nat_numeral run_simps loop_guard_def)
qed

text \<open>
  C3, amended: when \<open>getCurrentState\<close> returns \<open>null\<close> the machine has terminated
  (the loop's condition is false), but not only then: it has terminated as well
  when the current state is present and the read \<open>states[state]\<close> is \<open>undefined\<close>,
  and \<open>getCurrentState\<close> then returns that state. A run of a terminated machine
  returns at the first pull with no event and no call, and a run that has
  returned leaves the machine terminated.
\<close>

theorem null_state_implies_terminated:
  "(getCurrentState eng = None \<longrightarrow> \<not> loop_guard eng) \<and>
   (getCurrentState eng = Some s \<and> state_read (states eng) s = NoProperty \<longrightarrow>
      \<not> loop_guard eng) \<and>
   (\<not> loop_guard eng \<longrightarrow>
      for_await (Suc n) eng run = Some \<lparr>trace = [], outcome = Finished, engine = eng\<rparr>) \<and>
   (for_await k eng run = Some r \<and> outcome r = Finished \<longrightarrow> \<not> loop_guard (engine r))"
proof -
  have "for_await k eng run = Some r \<and> outcome r = Finished \<longrightarrow> \<not> loop_guard (engine r)"
    using finished_not_guard[of k eng SuspendedStart r] by (simp add: run_def)
  then show ?thesis
    by (auto simp: getCurrentState_def loop_guard_def run_def loop_head_stop split: option.splits)
qed

theorem null_state_implies_terminated_witness:
  "getCurrentState \<lparr>context = (), currentState = None, states = fetch_only\<rparr> = None \<and>
   \<not> loop_guard \<lparr>context = (), currentState = None, states = fetch_only\<rparr> \<and>
   for_await (Suc 0) \<lparr>context = (), currentState = None, states = fetch_only\<rparr> run =
     Some \<lparr>trace = [], outcome = Finished,
           engine = \<lparr>context = (), currentState = None, states = fetch_only\<rparr>\<rparr> \<and>
   getCurrentState \<lparr>context = (), currentState = Some (StrId ''loading''), states = fetch_only\<rparr>
     = Some (StrId ''loading'') \<and>
   state_read fetch_only (StrId ''loading'') = NoProperty \<and>
   \<not> loop_guard \<lparr>context = (), currentState = Some (StrId ''loading''), states = fetch_only\<rparr> \<and>
   for_await (Suc 0)
     \<lparr>context = (), currentState = Some (StrId ''loading''), states = fetch_only\<rparr> run =
     Some \<lparr>trace = [], outcome = Finished,
           engine = \<lparr>context = (), currentState = Some (StrId ''loading''),
                     states = fetch_only\<rparr>\<rparr>"
proof -
  have a: "state_read fetch_only (StrId ''loading'') = NoProperty"
    by (simp add: state_read_def fetch_only_def object_prototype_names_def)
  from a null_state_implies_terminated
    [of "\<lparr>context = (), currentState = None, states = fetch_only\<rparr>" _ 0]
    null_state_implies_terminated
    [of "\<lparr>context = (), currentState = Some (StrId ''loading''), states = fetch_only\<rparr>"
        "StrId ''loading''" 0]
  show ?thesis
    by (simp add: getCurrentState_def del: for_await.simps)
qed

text \<open>
  C4, as the specification states it: a full run of Scenario 1 emits exactly the
  two events \<open>go\<close> and \<open>done\<close>, and the current state is absent afterwards.

  This fails: \<open>success\<close> has a handler (its transition is the one that terminates),
  so the loop runs that handler too, and every handler that returns yields an
  event. With a \<open>success\<close> that yields \<open>complete\<close> the run emits three events.
\<close>

theorem scenario1_not_two_events:
  "map_option (emitted \<circ> trace)
     (for_await 4 (constructor () (StrId ''idle'') (scenario1 id id complete)) run)
     = Some [\<lparr>type = ''go''\<rparr>, \<lparr>type = ''done''\<rparr>, \<lparr>type = ''complete''\<rparr>] \<and>
   map_option (emitted \<circ> trace)
     (for_await 4 (constructor () (StrId ''idle'') (scenario1 id id complete)) run)
     \<noteq> Some [\<lparr>type = ''go''\<rparr>, \<lparr>type = ''done''\<rparr>]"
  by (simp add: eval_nat_numeral scenario1_def complete_def run_simps)

text \<open>
  C4, amended: whatever the first two states do to the context, and whatever
  event the \<open>execute\<close> of \<open>success\<close> returns, a full run of Scenario 1 (four pulls
  or more) emits exactly three events: \<open>go\<close>, \<open>done\<close> and the event of
  \<open>success\<close>; it ends without a failure, and the current state is absent afterwards.
\<close>

theorem scenario1_emits_three_events:
  assumes "exec3 (g (f c)) = Inr result"
  shows "\<exists>r. for_await (n + 4) (constructor c (StrId ''idle'') (scenario1 f g exec3)) run = Some r \<and>
     emitted (trace r) = [\<lparr>type = ''go''\<rparr>, \<lparr>type = ''done''\<rparr>, event result] \<and>
     outcome r = Finished \<and> getCurrentState (engine r) = None"
proof -
  have e: "n + 4 = Suc (Suc (Suc (Suc n)))" by simp
  from scenario1_run[where ?exec3.0 = exec3 and g = g and f = f and c = c and n = n] assms
  show ?thesis unfolding e
    by (simp add: getCurrentState_def del: for_await.simps)
qed

theorem scenario1_emits_three_events_witness:
  "complete (id (id ())) = Inr \<lparr>event = \<lparr>type = ''complete''\<rparr>, context = ()\<rparr> \<and>
   (\<exists>r. for_await 4 (constructor () (StrId ''idle'') (scenario1 id id complete)) run = Some r \<and>
     emitted (trace r) = [\<lparr>type = ''go''\<rparr>, \<lparr>type = ''done''\<rparr>, \<lparr>type = ''complete''\<rparr>] \<and>
     outcome r = Finished \<and> getCurrentState (engine r) = None)"
proof -
  have h: "complete (id (id ())) = Inr \<lparr>event = \<lparr>type = ''complete''\<rparr>, context = ()\<rparr>"
    by (simp add: complete_def)
  from scenario1_emits_three_events
    [where ?exec3.0 = complete and g = id and f = id and c = "()" and n = 0] h
  show ?thesis by (simp del: for_await.simps)
qed

text \<open>
  C5: when no callback of the state map fails and every transition path reaches
  a state with no entry in the map, every run is to end without a failure. The
  code does not, when the state reached names a member of \<open>Object.prototype\<close>: in
  the map \<open>to_valueOf\<close> no callback fails and the only path goes from \<open>idle\<close> to
  \<open>valueOf\<close>, which has no entry; the read \<open>states['valueOf']\<close> is a function, so the
  loop is entered again and the second pull throws a \<open>TypeError\<close>.
\<close>

theorem inherited_target_state_throws:
  "never_fail to_valueOf \<and> wf (successor to_valueOf) \<and>
   to_valueOf (StrId ''valueOf'') = None \<and>
   for_await 2 (constructor () (StrId ''idle'') to_valueOf) run =
     Some \<lparr>trace = [Execute (StrId ''idle'') (), Commit (), Yield \<lparr>type = ''go''\<rparr>,
                    Transition (StrId ''idle'') \<lparr>type = ''go''\<rparr> ()],
           outcome = Failed (TypeError ''stateHandler.execute is not a function''),
           engine = \<lparr>context = (), currentState = Some (StrId ''valueOf''),
                     states = to_valueOf\<rparr>\<rparr>"
proof -
  have nf: "never_fail to_valueOf"
    by (auto simp: never_fail_def to_valueOf_def createState_def no_options_def
        transitionTo_def split: if_splits)
  have "successor to_valueOf \<subseteq> measure (\<lambda>s. if s = StrId ''idle'' then 1 else 0)"
    by (auto simp: successor_def to_valueOf_def createState_def no_options_def
        transitionTo_def split: if_splits)
  then have w: "wf (successor to_valueOf)"
    by (rule wf_subset[OF wf_measure])
  have a: "to_valueOf (StrId ''valueOf'') = None" by (simp add: to_valueOf_def)
  have i: "to_valueOf (StrId ''idle'') =
      Some (createState (\<lambda>c. Inr \<lparr>event = \<lparr>type = ''go''\<rparr>, context = c\<rparr>)
              (transitionTo (StrId ''valueOf'')) no_options)"
    by (simp add: to_valueOf_def)
  have "for_await 2 (constructor () (StrId ''idle'') to_valueOf) run =
     Some \<lparr>trace = [Execute (StrId ''idle'') (), Commit (), Yield \<lparr>type = ''go''\<rparr>,
                    Transition (StrId ''idle'') \<lparr>type = ''go''\<rparr> ()],
           outcome = Failed (TypeError ''stateHandler.execute is not a function''),
           engine = \<lparr>context = (), currentState = Some (StrId ''valueOf''),
                     states = to_valueOf\<rparr>\<rparr>"
    using a i by (simp add: eval_nat_numeral run_simps)
  with nf w a show ?thesis by (simp del: for_await.simps)
qed

theorem inherited_target_state_throws_witness:
  "never_fail to_valueOf \<and> wf (successor to_valueOf) \<and>
   map_option outcome (for_await 2 (constructor () (StrId ''idle'') to_valueOf) run)
     = Some (Failed (TypeError ''stateHandler.execute is not a function''))"
  using inherited_target_state_throws by (simp del: for_await.simps)

text \<open>
  C1: pull any number of times, from a run that ends or from one that does not.
  The calls so far follow the order of a step: each \<open>execute\<close> that returns is
  followed at once by the assignment of the context it returned, and by no other
  assignment; then come \<open>onExit\<close>, the \<open>yield\<close> and the transition of that step,
  for the same state and with the event and the context that \<open>execute\<close> returned.
  The trace stops after a \<open>yield\<close> only while the generator is suspended there,
  and the engine then holds the context that \<open>execute\<close> returned; whatever follows
  a \<open>yield\<close> is the transition on the event yielded. Wherever the trace has a
  call of \<open>onExit\<close> or of the transition, with the context \<open>c\<close>, the assignment of
  \<open>c\<close> and an \<open>execute\<close> of the same handler that returned that event and \<open>c\<close> come
  before it, and a transition comes right after the \<open>yield\<close> of its event.
\<close>

theorem commit_precedes_onExit_yield_transition:
  assumes "pull_n n eng run = (tr, eng', g')"
  shows "step_order (states eng) g' tr \<and>
     (\<forall>s h result. g' = SuspendedYield s h result \<longrightarrow>
        context eng' = FSMStateResult.context result) \<and>
     (\<forall>pre x post s ev c.
        tr = pre @ x # post \<and> (x = OnExit s ev c \<or> x = Transition s ev c) \<longrightarrow>
          Commit c \<in> set pre \<and>
          (\<exists>h c0. states eng s = Some h \<and>
             execute h c0 = Inr \<lparr>event = ev, context = c\<rparr> \<and> Execute s c0 \<in> set pre)) \<and>
     (\<forall>pre s ev c post. tr = pre @ Transition s ev c # post \<longrightarrow>
        pre \<noteq> [] \<and> last pre = Yield ev) \<and>
     (\<forall>pre ev x post. tr = pre @ Yield ev # x # post \<longrightarrow> (\<exists>s c. x = Transition s ev c))"
proof -
  have p: "pull_n n eng SuspendedStart = (tr, eng', g')" using assms by (simp add: run_def)
  from pull_n_resting[OF p, of BeforeExecute] obtain ph where
    a: "after (states eng) BeforeExecute tr = Some ph" and r: "resting g' ph"
    and i: "gen_inv eng' g'"
    by auto
  from a r have 1: "step_order (states eng) g' tr" by (simp add: step_order_def)
  from i have 2: "\<forall>s h result. g' = SuspendedYield s h result \<longrightarrow>
        context eng' = FSMStateResult.context result"
    by auto
  have 3: "Commit c \<in> set pre \<and>
      (\<exists>h c0. states eng s = Some h \<and>
         execute h c0 = Inr \<lparr>event = ev, context = c\<rparr> \<and> Execute s c0 \<in> set pre)"
    if split: "tr = pre @ x # post" and kind: "x = OnExit s ev c \<or> x = Transition s ev c"
    for pre x post s ev c
    using kind
  proof
    assume "x = OnExit s ev c"
    with split a have "after (states eng) BeforeExecute (pre @ OnExit s ev c # post) = Some ph"
      by simp
    from accepted_OnExit[OF this] show ?thesis .
  next
    assume "x = Transition s ev c"
    with split a have "after (states eng) BeforeExecute (pre @ Transition s ev c # post) = Some ph"
      by simp
    from accepted_Transition[OF this] show ?thesis by simp
  qed
  have 4: "pre \<noteq> [] \<and> last pre = Yield ev" if "tr = pre @ Transition s ev c # post"
    for pre s ev c post
  proof -
    from that a have "after (states eng) BeforeExecute (pre @ Transition s ev c # post) = Some ph"
      by simp
    from accepted_Transition[OF this] show ?thesis by simp
  qed
  have 5: "\<exists>s c. x = Transition s ev c" if "tr = pre @ Yield ev # x # post" for pre ev x post
  proof -
    from that a have "after (states eng) BeforeExecute (pre @ Yield ev # x # post) = Some ph"
      by simp
    from accepted_after_Yield[OF this] show ?thesis .
  qed
  from 1 2 3 4 5 show ?thesis by blast
qed

theorem commit_precedes_onExit_yield_transition_witness:
  "pull_n 2 (constructor 0 (StrId ''off'') blinker) run =
     ([Execute (StrId ''off'') 0, Commit 1, OnExit (StrId ''off'') \<lparr>type = ''lit''\<rparr> 1,
       Yield \<lparr>type = ''lit''\<rparr>] @
      Transition (StrId ''off'') \<lparr>type = ''lit''\<rparr> 1 #
      [Execute (StrId ''on'') 1, Commit 2, OnExit (StrId ''on'') \<lparr>type = ''dark''\<rparr> 2,
       Yield \<lparr>type = ''dark''\<rparr>],
      \<lparr>context = 2, currentState = Some (StrId ''on''), states = blinker\<rparr>,
      SuspendedYield (StrId ''on'') (blink ''dark'' ''off'')
        \<lparr>event = \<lparr>type = ''dark''\<rparr>, context = 2\<rparr>) \<and>
   step_order blinker
     (SuspendedYield (StrId ''on'') (blink ''dark'' ''off'')
        \<lparr>event = \<lparr>type = ''dark''\<rparr>, context = 2\<rparr>)
     ([Execute (StrId ''off'') 0, Commit 1, OnExit (StrId ''off'') \<lparr>type = ''lit''\<rparr> 1,
       Yield \<lparr>type = ''lit''\<rparr>] @
      Transition (StrId ''off'') \<lparr>type = ''lit''\<rparr> 1 #
      [Execute (StrId ''on'') 1, Commit 2, OnExit (StrId ''on'') \<lparr>type = ''dark''\<rparr> 2,
       Yield \<lparr>type = ''dark''\<rparr>]) \<and>
   Commit 1 \<in> set [Execute (StrId ''off'') 0, Commit 1,
                    OnExit (StrId ''off'') \<lparr>type = ''lit''\<rparr> 1,
                    Yield \<lparr>type = ''lit''\<rparr> :: (typed_event, nat) obs] \<and>
   (\<exists>h c0. blinker (StrId ''off'') = Some h \<and>
      execute h c0 = Inr \<lparr>event = \<lparr>type = ''lit''\<rparr>, context = 1\<rparr> \<and>
      Execute (StrId ''off'') c0
        \<in> set [Execute (StrId ''off'') 0, Commit 1,
                OnExit (StrId ''off'') \<lparr>type = ''lit''\<rparr> 1,
                Yield \<lparr>type = ''lit''\<rparr> :: (typed_event, nat) obs])"
proof -
  let ?E = "constructor 0 (StrId ''off'') blinker"
  let ?pre = "[Execute (StrId ''off'') 0, Commit 1, OnExit (StrId ''off'') \<lparr>type = ''lit''\<rparr> 1,
       Yield \<lparr>type = ''lit''\<rparr> :: (typed_event, nat) obs]"
  let ?x = "Transition (StrId ''off'') \<lparr>type = ''lit''\<rparr> 1 :: (typed_event, nat) obs"
  let ?post = "[Execute (StrId ''on'') 1, Commit 2, OnExit (StrId ''on'') \<lparr>type = ''dark''\<rparr> 2,
       Yield \<lparr>type = ''dark''\<rparr> :: (typed_event, nat) obs]"
  let ?eng = "\<lparr>context = 2, currentState = Some (StrId ''on''), states = blinker\<rparr>
     :: (typed_event, nat) FSM"
  let ?g = "SuspendedYield (StrId ''on'') (blink ''dark'' ''off'')
        \<lparr>event = \<lparr>type = ''dark''\<rparr>, context = 2\<rparr>"
  have p: "pull_n 2 ?E run = (?pre @ ?x # ?post, ?eng, ?g)"
    using blinker_two_pulls by simp
  have s: "states ?E = blinker" by (simp add: constructor_def)
  note all = commit_precedes_onExit_yield_transition[OF p]
  from all have o: "step_order (states ?E) ?g (?pre @ ?x # ?post)" by (rule conjunct1)
  have prem: "?pre @ ?x # ?post = ?pre @ ?x # ?post \<and>
     (?x = OnExit (StrId ''off'') \<lparr>type = ''lit''\<rparr> 1 \<or>
      ?x = Transition (StrId ''off'') \<lparr>type = ''lit''\<rparr> 1)"
    by simp
  from all[THEN conjunct2, THEN conjunct2, THEN conjunct1, rule_format, OF prem]
  have d: "Commit 1 \<in> set ?pre \<and>
     (\<exists>h c0. states ?E (StrId ''off'') = Some h \<and>
        execute h c0 = Inr \<lparr>event = \<lparr>type = ''lit''\<rparr>, context = 1\<rparr> \<and>
        Execute (StrId ''off'') c0 \<in> set ?pre)" .
  show ?thesis
    by (intro conjI p o[unfolded s] d[unfolded s, THEN conjunct1] d[unfolded s, THEN conjunct2])
qed

text \<open>
  C2: take a run in which \<open>onEnter\<close>, \<open>execute\<close> or \<open>onExit\<close> of the handler of
  the state \<open>s\<close> is called with the context \<open>c\<close> and fails with \<open>err\<close>, and let
  \<open>onError\<close> of that handler be absent or return. Then what follows the failing call
  in the trace is the one call of \<open>onError\<close> of \<open>s\<close> with \<open>err\<close> and \<open>c\<close> (nothing when
  the hook is absent) and nothing else: no handler of any state runs afterwards.
  There is no call of \<open>onError\<close> before it. The consumer receives the failure
  \<open>err\<close>, and the engine keeps \<open>c\<close> and \<open>s\<close>. For \<open>onEnter\<close> and \<open>execute\<close> the
  context \<open>c\<close> is the one they were called with, before any assignment of the
  step; for \<open>onExit\<close> it is the context assigned just before the call.
\<close>

theorem hook_failure_routed_to_onError:
  assumes run: "for_await n eng run = Some r"
    and tr: "trace r = pre @ call # post"
    and h: "states eng s = Some h"
    and fails:
      "(call = OnEnter s c \<and> (\<exists>f. onEnter h = Some f \<and> f c = Inl err)) \<or>
       (call = Execute s c \<and> execute h c = Inl err) \<or>
       (call = OnExit s ev c \<and> (\<exists>f. onExit h = Some f \<and> f ev c = Inl err))"
    and ret: "onError_returns h err c"
  shows "post = onError_calls h s err c \<and>
         filter is_OnError pre = [] \<and>
         outcome r = Failed err \<and>
         context (engine r) = c \<and>
         currentState (engine r) = Some s \<and>
         (call = OnExit s ev c \<longrightarrow> pre \<noteq> [] \<and> last pre = Commit c)"
proof -
  have run': "for_await n eng SuspendedStart = Some r" using run by (simp add: run_def)
  have inv: "gen_inv eng SuspendedStart" by simp
  from fails h have r: "raises (states eng) call = Some err" "\<not> is_OnError call"
    "subject call = Some (s, c)"
    by auto
  from failing_call_ends_run[OF run' inv tr r(1,2)] r(3) h obtain
    c': "context (engine r) = c"
    and p: "post = onError_calls h s err c"
    and o: "outcome r = Failed (snd (catch_block s h (engine r) err))"
    and cs: "currentState (engine r) = Some s"
    and x: "\<forall>ev c. call = OnExit s ev c \<longrightarrow> pre \<noteq> [] \<and> last pre = Commit c"
    by auto
  from ret c' have "snd (catch_block s h (engine r) err) = err"
    by (auto simp: catch_block_def onError_returns_def split: option.splits)
  with o have o': "outcome r = Failed err" by simp
  from no_OnError_before_call[OF run' tr] have "filter is_OnError pre = []" .
  with c' p o' cs x show ?thesis by blast
qed

theorem hook_failure_routed_to_onError_witness:
  "\<exists>r. for_await 1 (constructor 0 (StrId ''idle'') [StrId ''idle'' \<mapsto> exit_fails]) run = Some r \<and>
     trace r = [Execute (StrId ''idle'') 0, Commit 1] @
               OnExit (StrId ''idle'') \<lparr>type = ''go''\<rparr> 1 #
               [OnError (StrId ''idle'') (Error ''exit'') 1] \<and>
     [StrId ''idle'' \<mapsto> exit_fails] (StrId ''idle'') = Some exit_fails \<and>
     (\<exists>f. onExit exit_fails = Some f \<and> f \<lparr>type = ''go''\<rparr> 1 = Inl (Error ''exit'')) \<and>
     onError_returns exit_fails (Error ''exit'') 1 \<and>
     [OnError (StrId ''idle'') (Error ''exit'') 1]
       = onError_calls exit_fails (StrId ''idle'') (Error ''exit'') 1 \<and>
     outcome r = Failed (Error ''exit'') \<and>
     context (engine r) = 1 \<and>
     currentState (engine r) = Some (StrId ''idle'')"
proof -
  let ?E = "constructor 0 (StrId ''idle'') [StrId ''idle'' \<mapsto> exit_fails]"
  obtain r where r: "for_await 1 ?E run = Some r"
    and t: "trace r = [Execute (StrId ''idle'') 0, Commit 1] @
               OnExit (StrId ''idle'') \<lparr>type = ''go''\<rparr> 1 #
               [OnError (StrId ''idle'') (Error ''exit'') 1]"
    using exit_fails_run[of 0] by (simp del: for_await.simps)
  have h: "states ?E (StrId ''idle'') = Some exit_fails"
    by (simp add: constructor_def)
  have x: "\<exists>f. onExit exit_fails = Some f \<and> f \<lparr>type = ''go''\<rparr> 1 = Inl (Error ''exit'')"
    by (simp add: exit_fails_def)
  then have f:
      "(OnExit (StrId ''idle'') \<lparr>type = ''go''\<rparr> 1 = OnEnter (StrId ''idle'') (1::nat) \<and>
        (\<exists>f. onEnter exit_fails = Some f \<and> f 1 = Inl (Error ''exit''))) \<or>
       (OnExit (StrId ''idle'') \<lparr>type = ''go''\<rparr> 1 = Execute (StrId ''idle'') (1::nat) \<and>
        execute exit_fails 1 = Inl (Error ''exit'')) \<or>
       (OnExit (StrId ''idle'') \<lparr>type = ''go''\<rparr> 1
          = OnExit (StrId ''idle'') \<lparr>type = ''go''\<rparr> (1::nat) \<and>
        (\<exists>f. onExit exit_fails = Some f \<and> f \<lparr>type = ''go''\<rparr> 1 = Inl (Error ''exit'')))"
    by simp
  have e: "onError_returns exit_fails (Error ''exit'') 1"
    by (simp add: onError_returns_def exit_fails_def)
  from hook_failure_routed_to_onError[OF r t h f e] r t h x e show ?thesis
    by (simp del: for_await.simps add: constructor_def)
qed

text \<open>
  C10: take a run in which the transition of the handler of the state \<open>s\<close> is
  called with the event \<open>ev\<close> and the context \<open>c\<close> and fails with \<open>err\<close>, and let
  \<open>onError\<close> of that handler be absent or return. The call comes right after the
  \<open>yield\<close> of \<open>ev\<close>, and \<open>c\<close> is the context assigned in that step. What follows
  the call in the trace is the one call of \<open>onError\<close> of \<open>s\<close> with \<open>err\<close> and \<open>c\<close>
  (nothing when the hook is absent) and nothing else; there is no call of
  \<open>onError\<close> before it. The consumer receives the failure \<open>err\<close>, and the current
  state is still \<open>s\<close>.
\<close>

theorem transition_failure_routed_to_onError:
  assumes run: "for_await n eng run = Some r"
    and tr: "trace r = pre @ Transition s ev c # post"
    and h: "states eng s = Some h"
    and fails: "transition h ev c = Inl err"
    and ret: "onError_returns h err c"
  shows "post = onError_calls h s err c \<and>
         filter is_OnError pre = [] \<and>
         outcome r = Failed err \<and>
         currentState (engine r) = Some s \<and>
         context (engine r) = c \<and>
         pre \<noteq> [] \<and> last pre = Yield ev \<and> Commit c \<in> set pre"
proof -
  have run': "for_await n eng SuspendedStart = Some r" using run by (simp add: run_def)
  have inv: "gen_inv eng SuspendedStart" by simp
  from fails h have r: "raises (states eng) (Transition s ev c) = Some err"
    "\<not> is_OnError (Transition s ev c)"
    by auto
  from failing_call_ends_run[OF run' inv tr r(1,2)] h obtain
    c': "context (engine r) = c"
    and p: "post = onError_calls h s err c"
    and o: "outcome r = Failed (snd (catch_block s h (engine r) err))"
    and cs: "currentState (engine r) = Some s"
    by auto
  from ret c' have "snd (catch_block s h (engine r) err) = err"
    by (auto simp: catch_block_def onError_returns_def split: option.splits)
  with o have o': "outcome r = Failed err" by simp
  from no_OnError_before_call[OF run' tr] have n: "filter is_OnError pre = []" .
  from transition_after_yield[OF run' tr] c' p o' cs n show ?thesis by blast
qed

theorem transition_failure_routed_to_onError_witness:
  "\<exists>r. for_await 2
         (constructor 0 (StrId ''idle'') [StrId ''idle'' \<mapsto> transition_fails]) run = Some r \<and>
     trace r = [Execute (StrId ''idle'') 0, Commit 1, Yield \<lparr>type = ''go''\<rparr>] @
               Transition (StrId ''idle'') \<lparr>type = ''go''\<rparr> 1 #
               [OnError (StrId ''idle'') (Error ''transition'') 1] \<and>
     [StrId ''idle'' \<mapsto> transition_fails] (StrId ''idle'') = Some transition_fails \<and>
     transition transition_fails \<lparr>type = ''go''\<rparr> 1 = Inl (Error ''transition'') \<and>
     onError_returns transition_fails (Error ''transition'') 1 \<and>
     [OnError (StrId ''idle'') (Error ''transition'') 1]
       = onError_calls transition_fails (StrId ''idle'') (Error ''transition'') 1 \<and>
     outcome r = Failed (Error ''transition'') \<and>
     context (engine r) = 1 \<and>
     currentState (engine r) = Some (StrId ''idle'')"
proof -
  let ?E = "constructor 0 (StrId ''idle'') [StrId ''idle'' \<mapsto> transition_fails]"
  obtain r where r: "for_await 2 ?E run = Some r"
    and t: "trace r = [Execute (StrId ''idle'') 0, Commit 1, Yield \<lparr>type = ''go''\<rparr>] @
               Transition (StrId ''idle'') \<lparr>type = ''go''\<rparr> 1 #
               [OnError (StrId ''idle'') (Error ''transition'') 1]"
    using transition_fails_run[of 0] by (simp add: eval_nat_numeral del: for_await.simps)
  have h: "states ?E (StrId ''idle'') = Some transition_fails"
    by (simp add: constructor_def)
  have f: "transition transition_fails \<lparr>type = ''go''\<rparr> 1 = Inl (Error ''transition'')"
    by (simp add: transition_fails_def)
  have e: "onError_returns transition_fails (Error ''transition'') 1"
    by (simp add: onError_returns_def transition_fails_def)
  from transition_failure_routed_to_onError[OF r t h f e] r t h f e show ?thesis
    by (simp del: for_await.simps add: constructor_def)
qed

end
